theory Spec2Isabelle
  imports Main "HOL-Library.Word"
begin

section \<open>The weight-balanced tree of tree.go\<close>

text \<open>
  The Go package keeps a map in a weight-balanced binary search tree. A tree handle is a
  pointer \<^verbatim>\<open>*Tree[K, V]\<close>, \<^verbatim>\<open>nil\<close> for the empty tree; every node is owned by
  exactly one parent, so a handle denotes the value of the subtree below it. The model is
  that value: \<open>TNil\<close> for \<^verbatim>\<open>nil\<close>, \<open>Node left right childSize key value\<close> for a node,
  with the fields in the order of the struct. An operation that writes fields of the
  receiver and returns a pointer is modelled by the tree that the returned pointer denotes
  after the writes.

  \<^item> \<^verbatim>\<open>childSize\<close> is a \<^verbatim>\<open>uint64\<close>, here a \<open>64 word\<close>: \<open>+\<close>, \<open>-\<close> and \<open>*\<close> wrap.
  \<^item> The bound \<^verbatim>\<open>n int\<close> of the extraction functions is a 64-bit signed integer, here a
    \<open>64 word\<close> read with \<open>sint\<close>; the conversions \<^verbatim>\<open>uint64(n)\<close> and \<^verbatim>\<open>int(ts)\<close> keep the bits.
  \<^item> A nil dereference and a negative capacity given to \<^verbatim>\<open>make\<close> panic in Go; a panic is
    the \<open>Inl\<close> branch of the result type.
  \<^item> The zero values of the key and value types are parameters \<open>zk\<close> and \<open>zv\<close>.
\<close>

datatype error = NilDeref | MakeSliceCap

type_synonym uint64 = "64 word"

datatype ('k, 'v) tree =
    TNil
  | Node "('k, 'v) tree" "('k, 'v) tree" uint64 'k 'v

definition treeDelta :: uint64 where
  "treeDelta = 3"

definition treeGamma :: uint64 where
  "treeGamma = 2"

text \<open>
  \<^verbatim>\<open>Cmpable.Cmp\<close> is an interface method: -1, 0 or +1 as the receiver is less than, equal
  to or greater than the argument. The keys are taken from a linear order and \<open>Cmp\<close> is
  the comparison of that order, written as the \<^verbatim>\<open>cmpUint.Cmp\<close> of the package's tests.
\<close>

definition Cmp :: "'k::linorder \<Rightarrow> 'k \<Rightarrow> int" where
  "Cmp c other = (if c = other then 0 else if c < other then - 1 else 1)"

subsection \<open>Accessors\<close>

fun RootKey :: "'k \<Rightarrow> ('k, 'v) tree \<Rightarrow> 'k" where
  "RootKey zk TNil = zk"
| "RootKey zk (Node l r cs k v) = k"

fun RootValue :: "'v \<Rightarrow> ('k, 'v) tree \<Rightarrow> 'v" where
  "RootValue zv TNil = zv"
| "RootValue zv (Node l r cs k v) = v"

fun Size :: "('k, 'v) tree \<Rightarrow> uint64" where
  "Size TNil = 0"
| "Size (Node l r cs k v) = cs + 1"

definition identity :: "'a \<Rightarrow> 'a" where
  "identity x = x"

definition getKeyFunc :: "'k \<Rightarrow> ('k, 'v) tree \<Rightarrow> 'k" where
  "getKeyFunc zk t = RootKey zk t"

definition getValFunc :: "'v \<Rightarrow> ('k, 'v) tree \<Rightarrow> 'v" where
  "getValFunc zv t = RootValue zv t"

subsection \<open>Traversal\<close>

text \<open>
  \<^verbatim>\<open>forEachNode\<close> walks the tree in order (in reverse order when \<open>reversed\<close>) and stops
  when the callback returns false. The callbacks of the package are closures that write a
  captured variable; the model's callback takes the captured state and returns it with
  its verdict. The receiver is dereferenced at once, so a nil receiver panics.
\<close>

fun forEachNode ::
  "('k, 'v) tree \<Rightarrow> (('k, 'v) tree \<Rightarrow> 's \<Rightarrow> bool \<times> 's) \<Rightarrow> bool \<Rightarrow> 's \<Rightarrow> error + (bool \<times> 's)"
where
  "forEachNode TNil f reversed st = Inl NilDeref"
| "forEachNode (Node l r cs k v) f reversed st =
     (case (if (if reversed then r else l) \<noteq> TNil
            then forEachNode (if reversed then r else l) f reversed st
            else Inr (True, st)) of
        Inl e \<Rightarrow> Inl e
      | Inr (False, st1) \<Rightarrow> Inr (False, st1)
      | Inr (True, st1) \<Rightarrow>
          (case f (Node l r cs k v) st1 of
             (False, st2) \<Rightarrow> Inr (False, st2)
           | (True, st2) \<Rightarrow>
               if (if reversed then l else r) = TNil then Inr (True, st2)
               else forEachNode (if reversed then l else r) f reversed st2))"

definition forEach ::
  "'k \<Rightarrow> 'v \<Rightarrow> ('k, 'v) tree \<Rightarrow> ('k \<Rightarrow> 'v \<Rightarrow> 's \<Rightarrow> bool \<times> 's) \<Rightarrow> bool \<Rightarrow> 's \<Rightarrow> error + 's"
where
  "forEach zk zv t f reversed st =
     (case forEachNode t (\<lambda>node. f (RootKey zk node) (RootValue zv node)) reversed st of
        Inl e \<Rightarrow> Inl e
      | Inr (_, st') \<Rightarrow> Inr st')"

definition ForEach ::
  "'k \<Rightarrow> 'v \<Rightarrow> ('k, 'v) tree \<Rightarrow> ('k \<Rightarrow> 'v \<Rightarrow> 's \<Rightarrow> bool \<times> 's) \<Rightarrow> 's \<Rightarrow> error + 's"
where
  "ForEach zk zv t f st = (if t = TNil then Inr st else forEach zk zv t f False st)"

definition ReverseForEach ::
  "'k \<Rightarrow> 'v \<Rightarrow> ('k, 'v) tree \<Rightarrow> ('k \<Rightarrow> 'v \<Rightarrow> 's \<Rightarrow> bool \<times> 's) \<Rightarrow> 's \<Rightarrow> error + 's"
where
  "ReverseForEach zk zv t f st = (if t = TNil then Inr st else forEach zk zv t f True st)"

subsection \<open>Bounded extraction\<close>

text \<open>
  \<^verbatim>\<open>top\<close> (here \<open>top'\<close>, as \<open>Least'\<close> and \<open>Greatest'\<close>) collects \<open>f node\<close> for the nodes in traversal order; its callback appends and
  then asks whether fewer than \<open>n\<close> results are held. The capacity \<open>max\<close> is \<open>n\<close>, or the
  size of the tree when that is below \<^verbatim>\<open>uint64(n)\<close>; \<^verbatim>\<open>make\<close> panics on a negative
  capacity. A nil result slice is the empty list.
\<close>

definition top' ::
  "('k, 'v) tree \<Rightarrow> 64 word \<Rightarrow> bool \<Rightarrow> (('k, 'v) tree \<Rightarrow> 'r) \<Rightarrow> error + 'r list"
where
  "top' t n reversed f =
     (if t = TNil then Inr []
      else
        let max = (if Size t < n then Size t else n) in
        if sint max < 0 then Inl MakeSliceCap
        else
          case forEachNode t
                 (\<lambda>node result. (int (length (result @ [f node])) < sint n, result @ [f node]))
                 reversed [] of
            Inl e \<Rightarrow> Inl e
          | Inr (_, result) \<Rightarrow> Inr result)"

definition Least' :: "('k, 'v) tree \<Rightarrow> 64 word \<Rightarrow> error + ('k, 'v) tree list" where
  "Least' t n = top' t n False identity"

definition LeastKeys :: "'k \<Rightarrow> ('k, 'v) tree \<Rightarrow> 64 word \<Rightarrow> error + 'k list" where
  "LeastKeys zk t n = top' t n False (getKeyFunc zk)"

definition LeastValues :: "'v \<Rightarrow> ('k, 'v) tree \<Rightarrow> 64 word \<Rightarrow> error + 'v list" where
  "LeastValues zv t n = top' t n False (getValFunc zv)"

definition Greatest' :: "('k, 'v) tree \<Rightarrow> 64 word \<Rightarrow> error + ('k, 'v) tree list" where
  "Greatest' t n = top' t n True identity"

definition GreatestKeys :: "'k \<Rightarrow> ('k, 'v) tree \<Rightarrow> 64 word \<Rightarrow> error + 'k list" where
  "GreatestKeys zk t n = top' t n True (getKeyFunc zk)"

definition GreatestValues :: "'v \<Rightarrow> ('k, 'v) tree \<Rightarrow> 64 word \<Rightarrow> error + 'v list" where
  "GreatestValues zv t n = top' t n True (getValFunc zv)"

definition Keys :: "'k \<Rightarrow> ('k, 'v) tree \<Rightarrow> error + 'k list" where
  "Keys zk t = LeastKeys zk t (Size t)"

definition Values :: "'v \<Rightarrow> ('k, 'v) tree \<Rightarrow> error + 'v list" where
  "Values zv t = LeastValues zv t (Size t)"

definition GreatestNode :: "('k, 'v) tree \<Rightarrow> error + ('k, 'v) tree" where
  "GreatestNode t =
     (case Greatest' t 1 of
        Inl e \<Rightarrow> Inl e
      | Inr [] \<Rightarrow> Inr TNil
      | Inr (x # xs) \<Rightarrow> Inr x)"

definition LeastNode :: "('k, 'v) tree \<Rightarrow> error + ('k, 'v) tree" where
  "LeastNode t =
     (case Least' t 1 of
        Inl e \<Rightarrow> Inl e
      | Inr [] \<Rightarrow> Inr TNil
      | Inr (x # xs) \<Rightarrow> Inr x)"

subsection \<open>Lookup\<close>

fun GetNode :: "('k::linorder, 'v) tree \<Rightarrow> 'k \<Rightarrow> ('k, 'v) tree" where
  "GetNode TNil key = TNil"
| "GetNode (Node l r cs k v) key =
     (if Cmp k key = 0 then Node l r cs k v
      else if (if Cmp k key < 0 then r else l) = TNil then TNil
      else GetNode (if Cmp k key < 0 then r else l) key)"

definition Get :: "'v \<Rightarrow> ('k::linorder, 'v) tree \<Rightarrow> 'k \<Rightarrow> 'v" where
  "Get zv t key = RootValue zv (GetNode t key)"

subsection \<open>The balance engine\<close>

text \<open>
  The rotations assign the children for the right-heavy case and swap each pair when the
  heavy side is the left one: \<open>node rightHeavy a b\<close> is the node with children \<open>a\<close>, \<open>b\<close>
  after that swap.
\<close>

definition node ::
  "bool \<Rightarrow> ('k, 'v) tree \<Rightarrow> ('k, 'v) tree \<Rightarrow> uint64 \<Rightarrow> 'k \<Rightarrow> 'v \<Rightarrow> ('k, 'v) tree"
where
  "node rightHeavy a b cs k v = (if rightHeavy then Node a b cs k v else Node b a cs k v)"

fun balance :: "('k, 'v) tree \<Rightarrow> bool \<Rightarrow> error + ('k, 'v) tree" where
  "balance TNil rightHeavy = Inl NilDeref"
| "balance (Node l r cs k v) rightHeavy =
     (let (x, c) = (if rightHeavy then (l, r) else (r, l));
          (b, z) = (case c of
                      TNil \<Rightarrow> (TNil, TNil)
                    | Node cl cr ccs ck cv \<Rightarrow> if rightHeavy then (cl, cr) else (cr, cl));
          xSize = Size x;
          cSize = Size c
      in
        if (xSize + 1) * treeDelta \<ge> cSize + 1 then Inr (Node l r cs k v)
        else
          let bSize = Size b; zSize = Size z in
          if bSize + 1 < (zSize + 1) * treeGamma then
            (case c of
               TNil \<Rightarrow> Inl NilDeref
             | Node cl cr ccs ck cv \<Rightarrow>
                 let t' = node rightHeavy x b (xSize + bSize) k v in
                 Inr (node rightHeavy t' z (Size t' + zSize) ck cv))
          else
            (case b of
               TNil \<Rightarrow> Inl NilDeref
             | Node bl br bcs bk bv \<Rightarrow>
                 let (s, y) = (if rightHeavy then (bl, br) else (br, bl)) in
                 (case c of
                    TNil \<Rightarrow> Inl NilDeref
                  | Node cl cr ccs ck cv \<Rightarrow>
                      let t' = node rightHeavy x s (xSize + Size s) k v;
                          c' = node rightHeavy y z (Size y + zSize) ck cv
                      in Inr (node rightHeavy t' c' (Size t' + Size c') bk bv))))"

subsection \<open>Insert and Remove\<close>

text \<open>
  When the recursive \<^verbatim>\<open>Insert\<close> reports that it replaced a value, the Go code returns the
  receiver without touching its child pointer: the child was written in place and is
  still the same node. The tree the receiver then denotes has the updated child below it.
\<close>

fun Insert :: "('k::linorder, 'v) tree \<Rightarrow> 'k \<Rightarrow> 'v \<Rightarrow> error + (('k, 'v) tree \<times> bool)" where
  "Insert TNil key val = Inr (Node TNil TNil 0 key val, True)"
| "Insert (Node l r cs k v) key val =
     (if Cmp k key = 0 then Inr (Node l r cs k val, False)
      else
        let addRight = (Cmp k key < 0) in
        case (if (if addRight then r else l) = TNil
              then Inr (Node TNil TNil 0 key val, True)
              else Insert (if addRight then r else l) key val) of
          Inl e \<Rightarrow> Inl e
        | Inr (next, added) \<Rightarrow>
            if \<not> added
            then Inr (if addRight then Node l next cs k v else Node next r cs k v, False)
            else
              (case balance (if addRight then Node l next (cs + 1) k v
                             else Node next r (cs + 1) k v) addRight of
                 Inl e \<Rightarrow> Inl e
               | Inr res \<Rightarrow> Inr (res, True)))"

fun Remove :: "('k::linorder, 'v) tree \<Rightarrow> 'k \<Rightarrow> error + (('k, 'v) tree \<times> bool)" where
  "Remove TNil key = Inr (TNil, False)"
| "Remove (Node l r cs k v) key =
     (if Cmp k key = 0 then
        (if l = TNil \<and> r = TNil then Inr (TNil, True)
         else if l \<noteq> TNil \<and> r \<noteq> TNil then
           (case LeastNode r of
              Inl e \<Rightarrow> Inl e
            | Inr TNil \<Rightarrow> Inl NilDeref
            | Inr (Node ml mr mcs mk mv) \<Rightarrow>
                (case Remove r mk of
                   Inl e \<Rightarrow> Inl e
                 | Inr (r', removed) \<Rightarrow>
                     (case balance (Node l r' (cs - 1) mk mv) False of
                        Inl e \<Rightarrow> Inl e
                      | Inr res \<Rightarrow> Inr (res, True))))
         else if l = TNil then Inr (r, True)
         else Inr (l, True))
      else
        let removeRight = (Cmp k key < 0) in
        case Remove (if removeRight then r else l) key of
          Inl e \<Rightarrow> Inl e
        | Inr (newNext, removed) \<Rightarrow>
            if removed then
              (case balance (if removeRight then Node l newNext (cs - 1) k v
                             else Node newNext r (cs - 1) k v) (\<not> removeRight) of
                 Inl e \<Rightarrow> Inl e
               | Inr res \<Rightarrow> Inr (res, True))
            else Inr (Node l r cs k v, False))"

section \<open>Operation sequences\<close>

text \<open>
  A caller owns one handle and feeds each operation the handle the previous one returned.
  \<open>run t ops\<close> does that from \<open>t\<close>; a panic ends the run. \<open>model ops\<close> is the map that
  the same operations describe: an insertion binds the key, a removal unbinds it.
\<close>

datatype ('k, 'v) op = OpInsert 'k 'v | OpRemove 'k

fun apply_op :: "('k::linorder, 'v) tree \<Rightarrow> ('k, 'v) op \<Rightarrow> error + ('k, 'v) tree" where
  "apply_op t (OpInsert key val) =
     (case Insert t key val of Inl e \<Rightarrow> Inl e | Inr (t', added) \<Rightarrow> Inr t')"
| "apply_op t (OpRemove key) =
     (case Remove t key of Inl e \<Rightarrow> Inl e | Inr (t', removed) \<Rightarrow> Inr t')"

fun run :: "('k::linorder, 'v) tree \<Rightarrow> ('k, 'v) op list \<Rightarrow> error + ('k, 'v) tree" where
  "run t [] = Inr t"
| "run t (x # xs) = (case apply_op t x of Inl e \<Rightarrow> Inl e | Inr t' \<Rightarrow> run t' xs)"

fun model_op :: "('k \<rightharpoonup> 'v) \<Rightarrow> ('k, 'v) op \<Rightarrow> ('k \<rightharpoonup> 'v)" where
  "model_op m (OpInsert key val) = m(key \<mapsto> val)"
| "model_op m (OpRemove key) = m(key := None)"

definition model :: "('k, 'v) op list \<Rightarrow> ('k \<rightharpoonup> 'v)" where
  "model ops = foldl model_op Map.empty ops"

section \<open>What the tree denotes, and its invariants\<close>

text \<open>
  \<open>count\<close> is the true number of nodes, \<open>inorder\<close> the entries from left to right,
  \<open>nodes\<close> the subtrees in the same order, \<open>keys\<close> the set of keys and \<open>lookup\<close> the map
  from keys to values.
\<close>

fun count :: "('k, 'v) tree \<Rightarrow> nat" where
  "count TNil = 0"
| "count (Node l r cs k v) = count l + count r + 1"

fun inorder :: "('k, 'v) tree \<Rightarrow> ('k \<times> 'v) list" where
  "inorder TNil = []"
| "inorder (Node l r cs k v) = inorder l @ (k, v) # inorder r"

fun nodes :: "('k, 'v) tree \<Rightarrow> ('k, 'v) tree list" where
  "nodes TNil = []"
| "nodes (Node l r cs k v) = nodes l @ Node l r cs k v # nodes r"

definition keys :: "('k, 'v) tree \<Rightarrow> 'k set" where
  "keys t = fst ` set (inorder t)"

definition lookup :: "('k, 'v) tree \<Rightarrow> 'k \<rightharpoonup> 'v" where
  "lookup t = map_of (inorder t)"

text \<open>
  The three invariants of the data model. \<open>bst\<close>: the keys of the left subtree compare
  less than the node's key, those of the right subtree greater. \<open>sizes_ok\<close>: the field
  \<^verbatim>\<open>childSize\<close> is the sum of the sizes of the two children, where the size of a subtree is
  what \<open>Size\<close> returns. \<open>weight_balanced\<close>: with \<open>a\<close> and \<open>c\<close> the sizes of the two
  children plus one, \<open>a * 3 \<ge> c\<close> for both orders. Sizes are read as natural numbers, so
  these sums and products do not wrap.
\<close>

fun bst :: "('k::linorder, 'v) tree \<Rightarrow> bool" where
  "bst TNil = True"
| "bst (Node l r cs k v) =
     (bst l \<and> bst r \<and> (\<forall>k' \<in> keys l. Cmp k' k < 0) \<and> (\<forall>k' \<in> keys r. 0 < Cmp k' k))"

fun sizes_ok :: "('k, 'v) tree \<Rightarrow> bool" where
  "sizes_ok TNil = True"
| "sizes_ok (Node l r cs k v) =
     (sizes_ok l \<and> sizes_ok r \<and> unat cs = unat (Size l) + unat (Size r))"

fun weight_balanced :: "('k, 'v) tree \<Rightarrow> bool" where
  "weight_balanced TNil = True"
| "weight_balanced (Node l r cs k v) =
     (weight_balanced l \<and> weight_balanced r \<and>
      (unat (Size l) + 1) * 3 \<ge> unat (Size r) + 1 \<and>
      (unat (Size r) + 1) * 3 \<ge> unat (Size l) + 1)"

text \<open>
  The same two invariants against the true node counts: \<open>sized\<close> says that every
  \<^verbatim>\<open>childSize\<close> is the number of descendants, \<open>wbal\<close> that the true weights are balanced.
  \<open>valid\<close> collects what every operation maintains.
\<close>

fun sized :: "('k, 'v) tree \<Rightarrow> bool" where
  "sized TNil = True"
| "sized (Node l r cs k v) = (sized l \<and> sized r \<and> cs = of_nat (count l + count r))"

fun wbal :: "('k, 'v) tree \<Rightarrow> bool" where
  "wbal TNil = True"
| "wbal (Node l r cs k v) =
     (wbal l \<and> wbal r \<and> (count l + 1) * 3 \<ge> count r + 1 \<and> (count r + 1) * 3 \<ge> count l + 1)"

definition valid :: "('k::linorder, 'v) tree \<Rightarrow> bool" where
  "valid t = (sized t \<and> wbal t \<and> bst t)"

text \<open>
  \<open>rebalanced l r k v t'\<close>: \<open>t'\<close> is a valid arrangement of the node \<open>(l, k, v, r)\<close>.
  \<open>inserted\<close> and \<open>removed_ok\<close> describe the result of \<open>Insert\<close> and \<open>Remove\<close>.
\<close>

definition rebalanced ::
  "('k, 'v) tree \<Rightarrow> ('k, 'v) tree \<Rightarrow> 'k \<Rightarrow> 'v \<Rightarrow> ('k, 'v) tree \<Rightarrow> bool" where
  "rebalanced l r k v t' =
     (sized t' \<and> wbal t' \<and> count t' = count l + count r + 1 \<and>
      inorder t' = inorder l @ (k, v) # inorder r)"

definition inserted ::
  "('k::linorder, 'v) tree \<Rightarrow> 'k \<Rightarrow> 'v \<Rightarrow> ('k, 'v) tree \<Rightarrow> bool \<Rightarrow> bool" where
  "inserted t key val t' added =
     (sized t' \<and> wbal t' \<and> bst t' \<and> count t' = count t + (if added then 1 else 0) \<and>
      added = (key \<notin> keys t) \<and> lookup t' = (lookup t)(key \<mapsto> val))"

definition removed_ok ::
  "('k::linorder, 'v) tree \<Rightarrow> 'k \<Rightarrow> ('k, 'v) tree \<Rightarrow> bool \<Rightarrow> bool" where
  "removed_ok t key t' removed =
     (sized t' \<and> wbal t' \<and> bst t' \<and> count t = count t' + (if removed then 1 else 0) \<and>
      removed = (key \<in> keys t) \<and> lookup t' = (lookup t)(key := None))"

text \<open>
  A traversal with early exit, on a list: \<open>visit f xs st\<close> calls \<open>f\<close> on the elements of
  \<open>xs\<close> in order, threading the state, and stops at the first call that returns false;
  the elements after it are not visited.
\<close>

fun visit :: "('a \<Rightarrow> 's \<Rightarrow> bool \<times> 's) \<Rightarrow> 'a list \<Rightarrow> 's \<Rightarrow> bool \<times> 's" where
  "visit f [] st = (True, st)"
| "visit f (x # xs) st =
     (case f x st of (False, st') \<Rightarrow> (False, st') | (True, st') \<Rightarrow> visit f xs st')"

text \<open>
  \<open>skeleton\<close> forgets the values and keeps the shape, the keys and every \<^verbatim>\<open>childSize\<close>.
\<close>

definition skeleton :: "('k, 'v) tree \<Rightarrow> ('k, unit) tree" where
  "skeleton t = map_tree (\<lambda>k. k) (\<lambda>v. ()) t"


section \<open>Lemmas\<close>

lemma Size_count: "sized t \<Longrightarrow> Size t = of_nat (count t)"
  by (cases t) simp_all

lemma unat_of_nat64: "n < 2 ^ 64 \<Longrightarrow> unat (of_nat n :: uint64) = n"
  by (simp add: unat_of_nat)

lemma delta_test:
  assumes "a < 2 ^ 62" "b < 2 ^ 62"
  shows "((of_nat b :: uint64) + 1 \<le> (of_nat a + 1) * treeDelta) = (b + 1 \<le> (a + 1) * 3)"
proof -
  have l: "(of_nat a + 1) * treeDelta = (of_nat ((a + 1) * 3) :: uint64)"
    by (simp add: treeDelta_def)
  have r: "(of_nat b :: uint64) + 1 = of_nat (b + 1)" by simp
  have ub: "unat (of_nat (b + 1) :: uint64) = b + 1"
    using assms by (intro unat_of_nat64) simp
  have ua: "unat (of_nat ((a + 1) * 3) :: uint64) = (a + 1) * 3"
    using assms by (intro unat_of_nat64) simp
  show ?thesis unfolding l r by (simp only: word_le_nat_alt ua ub)
qed

lemma gamma_test:
  assumes "a < 2 ^ 62" "b < 2 ^ 62"
  shows "((of_nat b :: uint64) + 1 < (of_nat a + 1) * treeGamma) = (b + 1 < (a + 1) * 2)"
proof -
  have l: "(of_nat a + 1) * treeGamma = (of_nat ((a + 1) * 2) :: uint64)"
    by (simp add: treeGamma_def)
  have r: "(of_nat b :: uint64) + 1 = of_nat (b + 1)" by simp
  have ub: "unat (of_nat (b + 1) :: uint64) = b + 1"
    using assms by (intro unat_of_nat64) simp
  have ua: "unat (of_nat ((a + 1) * 2) :: uint64) = (a + 1) * 2"
    using assms by (intro unat_of_nat64) simp
  show ?thesis unfolding l r by (simp only: word_less_nat_alt ua ub)
qed

lemma balance_keep:
  assumes "sized x" "sized c" "count x + count c < 2 ^ 62"
    and "count c + 1 \<le> (count x + 1) * 3"
  shows "balance (Node x c cs k v) True = Inr (Node x c cs k v)"
    and "balance (Node c x cs k v) False = Inr (Node c x cs k v)"
proof -
  have t: "Size c + 1 \<le> (Size x + 1) * treeDelta"
    using assms by (simp add: Size_count delta_test)
  show "balance (Node x c cs k v) True = Inr (Node x c cs k v)"
    using t by (simp split: tree.splits)
  show "balance (Node c x cs k v) False = Inr (Node c x cs k v)"
    using t by (simp split: tree.splits)
qed

lemma balance_single:
  assumes "sized x" "sized b" "sized z" "ccs = of_nat (count b + count z)"
    and "count x + count b + count z + 1 < 2 ^ 62"
    and "\<not> count b + count z + 1 + 1 \<le> (count x + 1) * 3"
    and "count b + 1 < (count z + 1) * 2"
  shows "balance (Node x (Node b z ccs ck cv) cs k v) True =
           Inr (Node (Node x b (of_nat (count x + count b)) k v) z
                  (of_nat (count x + count b + 1 + count z)) ck cv)"
    and "balance (Node (Node z b ccs ck cv) x cs k v) False =
           Inr (Node z (Node b x (of_nat (count x + count b)) k v)
                  (of_nat (count x + count b + 1 + count z)) ck cv)"
proof -
  have sc: "sized (Node b z ccs ck cv)" "sized (Node z b ccs ck cv)"
    using assms by (simp_all add: add.commute)
  have t1: "\<not> ccs + 1 + 1 \<le> (Size x + 1) * treeDelta"
    using assms delta_test [of "count x" "count b + count z + 1"]
    by (simp add: Size_count)
  have t2: "Size b + 1 < (Size z + 1) * treeGamma"
    using assms by (simp add: Size_count gamma_test)
  show "balance (Node x (Node b z ccs ck cv) cs k v) True =
           Inr (Node (Node x b (of_nat (count x + count b)) k v) z
                  (of_nat (count x + count b + 1 + count z)) ck cv)"
    using t1 t2 assms(1-3) by (simp add: node_def Size_count Let_def)
  show "balance (Node (Node z b ccs ck cv) x cs k v) False =
           Inr (Node z (Node b x (of_nat (count x + count b)) k v)
                  (of_nat (count x + count b + 1 + count z)) ck cv)"
    using t1 t2 assms(1-3) by (simp add: node_def Size_count Let_def)
qed

lemma balance_double:
  assumes "sized x" "sized s" "sized y" "sized z"
    and "bcs = of_nat (count s + count y)"
    and "ccs = of_nat (count s + count y + 1 + count z)"
    and "count x + count s + count y + count z + 2 < 2 ^ 62"
    and "\<not> (count s + count y + 1) + count z + 1 + 1 \<le> (count x + 1) * 3"
    and "\<not> (count s + count y + 1) + 1 < (count z + 1) * 2"
  shows "balance (Node x (Node (Node s y bcs bk bv) z ccs ck cv) cs k v) True =
           Inr (Node (Node x s (of_nat (count x + count s)) k v)
                     (Node y z (of_nat (count y + count z)) ck cv)
                     (of_nat (count x + count s + 1 + (count y + count z + 1))) bk bv)"
    and "balance (Node (Node z (Node y s bcs bk bv) ccs ck cv) x cs k v) False =
           Inr (Node (Node z y (of_nat (count y + count z)) ck cv)
                     (Node s x (of_nat (count x + count s)) k v)
                     (of_nat (count x + count s + 1 + (count y + count z + 1))) bk bv)"
proof -
  have t1: "\<not> ccs + 1 + 1 \<le> (Size x + 1) * treeDelta"
    using assms delta_test [of "count x" "count s + count y + 1 + count z + 1"]
    by (simp add: Size_count)
  have t2: "\<not> bcs + 1 + 1 < (Size z + 1) * treeGamma"
    using assms gamma_test [of "count z" "count s + count y + 1"]
    by (simp add: Size_count)
  show "balance (Node x (Node (Node s y bcs bk bv) z ccs ck cv) cs k v) True =
           Inr (Node (Node x s (of_nat (count x + count s)) k v)
                     (Node y z (of_nat (count y + count z)) ck cv)
                     (of_nat (count x + count s + 1 + (count y + count z + 1))) bk bv)"
    using t1 t2 assms(1-4) by (simp add: node_def Size_count Let_def)
  show "balance (Node (Node z (Node y s bcs bk bv) ccs ck cv) x cs k v) False =
           Inr (Node (Node z y (of_nat (count y + count z)) ck cv)
                     (Node s x (of_nat (count x + count s)) k v)
                     (of_nat (count x + count s + 1 + (count y + count z + 1))) bk bv)"
    using t1 t2 assms(1-4) by (simp add: node_def Size_count Let_def)
qed

lemma single_arith:
  fixes x b z :: nat
  assumes "b + z + 1 + 1 \<le> (x + 2) * 3"
    and "\<not> b + z + 1 + 1 \<le> (x + 1) * 3"
    and "z + 1 \<le> (b + 1) * 3" "b + 1 \<le> (z + 1) * 3"
    and "b + 1 < (z + 1) * 2"
  shows "b + 1 \<le> (x + 1) * 3" "x + 1 \<le> (b + 1) * 3"
    "z + 1 \<le> (x + b + 1 + 1) * 3" "x + b + 1 + 1 \<le> (z + 1) * 3"
proof -
  show "b + 1 \<le> (x + 1) * 3" using assms by simp
  show "x + 1 \<le> (b + 1) * 3" using assms by simp
  show "z + 1 \<le> (x + b + 1 + 1) * 3" using assms by simp
  show "x + b + 1 + 1 \<le> (z + 1) * 3" using assms by simp
qed

lemma double_arith:
  fixes x s y z :: nat
  assumes "(s + y + 1) + z + 1 + 1 \<le> (x + 2) * 3"
    and "\<not> (s + y + 1) + z + 1 + 1 \<le> (x + 1) * 3"
    and "z + 1 \<le> ((s + y + 1) + 1) * 3" "(s + y + 1) + 1 \<le> (z + 1) * 3"
    and "\<not> (s + y + 1) + 1 < (z + 1) * 2"
    and "y + 1 \<le> (s + 1) * 3" "s + 1 \<le> (y + 1) * 3"
  shows "s + 1 \<le> (x + 1) * 3" "x + 1 \<le> (s + 1) * 3"
    "z + 1 \<le> (y + 1) * 3" "y + 1 \<le> (z + 1) * 3"
    "y + z + 1 + 1 \<le> (x + s + 1 + 1) * 3" "x + s + 1 + 1 \<le> (y + z + 1 + 1) * 3"
proof -
  show "s + 1 \<le> (x + 1) * 3" using assms by simp
  show "x + 1 \<le> (s + 1) * 3" using assms by simp
  show "z + 1 \<le> (y + 1) * 3" using assms by simp
  show "y + 1 \<le> (z + 1) * 3" using assms by simp
  show "y + z + 1 + 1 \<le> (x + s + 1 + 1) * 3" using assms by simp
  show "x + s + 1 + 1 \<le> (y + z + 1 + 1) * 3" using assms by simp
qed

lemma rebalancedI:
  assumes "sized t'" "wbal t'" "count t' = count l + count r + 1"
    "inorder t' = inorder l @ (k, v) # inorder r"
  shows "rebalanced l r k v t'"
  using assms unfolding rebalanced_def by blast

lemma balance_right_ok:
  assumes sl: "sized l" and sr: "sized r" and wl: "wbal l" and wr: "wbal r"
    and cs: "cs = of_nat (count l + count r)"
    and bound: "count l + count r + 1 < 2 ^ 62"
    and light: "count l + 1 \<le> (count r + 1) * 3"
    and heavy: "count r + 1 \<le> (count l + 2) * 3"
  shows "\<exists>t'. balance (Node l r cs k v) True = Inr t' \<and> rebalanced l r k v t'"
proof (cases "count r + 1 \<le> (count l + 1) * 3")
  case True
  have b: "count l + count r < 2 ^ 62" using bound by simp
  have "balance (Node l r cs k v) True = Inr (Node l r cs k v)"
    by (rule balance_keep(1) [OF sl sr b True])
  moreover have "rebalanced l r k v (Node l r cs k v)"
    using sl sr wl wr cs light True by (intro rebalancedI) simp_all
  ultimately show ?thesis by blast
next
  case unb: False
  then obtain b z ccs ck cv where r: "r = Node b z ccs ck cv"
    by (cases r) auto
  have sb: "sized b" and sz: "sized z" and ccs: "ccs = of_nat (count b + count z)"
    and wb: "wbal b" and wz: "wbal z"
    and bz: "count z + 1 \<le> (count b + 1) * 3" "count b + 1 \<le> (count z + 1) * 3"
    using sr wr unfolding r by simp_all
  have cr: "count r = count b + count z + 1" by (simp add: r)
  have h1: "count b + count z + 1 + 1 \<le> (count l + 2) * 3" using heavy cr by simp
  have h2: "\<not> count b + count z + 1 + 1 \<le> (count l + 1) * 3" using unb cr by simp
  show ?thesis
  proof (cases "count b + 1 < (count z + 1) * 2")
    case single: True
    let ?t = "Node (Node l b (of_nat (count l + count b)) k v) z
                (of_nat (count l + count b + 1 + count z)) ck cv"
    have bd: "count l + count b + count z + 1 < 2 ^ 62" using bound cr by simp
    have "balance (Node l r cs k v) True = Inr ?t"
      unfolding r by (rule balance_single(1) [OF sl sb sz ccs bd h2 single])
    moreover have "rebalanced l r k v ?t"
    proof (rule rebalancedI)
      note ar = single_arith [OF h1 h2 bz single]
      show "sized ?t" using sl sb sz by simp
      show "wbal ?t" unfolding wbal.simps count.simps using wl wb wz ar by blast
      show "count ?t = count l + count r + 1" by (simp add: r)
      show "inorder ?t = inorder l @ (k, v) # inorder r" by (simp add: r)
    qed
    ultimately show ?thesis by blast
  next
    case double: False
    then obtain s y bcs bk bv where b: "b = Node s y bcs bk bv"
      by (cases b) auto
    have ss: "sized s" and sy: "sized y" and bcs: "bcs = of_nat (count s + count y)"
      and ws: "wbal s" and wy: "wbal y"
      and sy_bal: "count y + 1 \<le> (count s + 1) * 3" "count s + 1 \<le> (count y + 1) * 3"
      using sb wb unfolding b by simp_all
    have cb: "count b = count s + count y + 1" by (simp add: b)
    let ?t = "Node (Node l s (of_nat (count l + count s)) k v)
                   (Node y z (of_nat (count y + count z)) ck cv)
                   (of_nat (count l + count s + 1 + (count y + count z + 1))) bk bv"
    have ccs': "ccs = of_nat (count s + count y + 1 + count z)"
      using ccs cb by simp
    have bd: "count l + count s + count y + count z + 2 < 2 ^ 62" using bound cr cb by simp
    have g1: "(count s + count y + 1) + count z + 1 + 1 \<le> (count l + 2) * 3"
      using h1 cb by simp
    have g2: "\<not> (count s + count y + 1) + count z + 1 + 1 \<le> (count l + 1) * 3"
      using h2 cb by simp
    have g3: "count z + 1 \<le> ((count s + count y + 1) + 1) * 3"
      using bz(1) cb by simp
    have g4: "(count s + count y + 1) + 1 \<le> (count z + 1) * 3"
      using bz(2) cb by simp
    have g5: "\<not> (count s + count y + 1) + 1 < (count z + 1) * 2"
      using double cb by simp
    have "balance (Node l r cs k v) True = Inr ?t"
      unfolding r b by (rule balance_double(1) [OF sl ss sy sz bcs ccs' bd g2 g5])
    moreover have "rebalanced l r k v ?t"
    proof (rule rebalancedI)
      note ar = double_arith [OF g1 g2 g3 g4 g5 sy_bal]
      show "sized ?t" using sl ss sy sz by simp
      show "wbal ?t" unfolding wbal.simps count.simps using wl ws wy wz ar by blast
      show "count ?t = count l + count r + 1" by (simp add: r b)
      show "inorder ?t = inorder l @ (k, v) # inorder r" by (simp add: r b)
    qed
    ultimately show ?thesis by blast
  qed
qed

lemma balance_left_ok:
  assumes sl: "sized l" and sr: "sized r" and wl: "wbal l" and wr: "wbal r"
    and cs: "cs = of_nat (count l + count r)"
    and bound: "count l + count r + 1 < 2 ^ 62"
    and light: "count r + 1 \<le> (count l + 1) * 3"
    and heavy: "count l + 1 \<le> (count r + 2) * 3"
  shows "\<exists>t'. balance (Node l r cs k v) False = Inr t' \<and> rebalanced l r k v t'"
proof (cases "count l + 1 \<le> (count r + 1) * 3")
  case True
  have b: "count r + count l < 2 ^ 62" using bound by simp
  have "balance (Node l r cs k v) False = Inr (Node l r cs k v)"
    by (rule balance_keep(2) [OF sr sl b True])
  moreover have "rebalanced l r k v (Node l r cs k v)"
    using sl sr wl wr cs light True by (intro rebalancedI) simp_all
  ultimately show ?thesis by blast
next
  case unb: False
  then obtain b z ccs ck cv where l: "l = Node z b ccs ck cv"
    by (cases l) auto
  have sb: "sized b" and sz: "sized z" and ccs: "ccs = of_nat (count b + count z)"
    and wb: "wbal b" and wz: "wbal z"
    and bz: "count z + 1 \<le> (count b + 1) * 3" "count b + 1 \<le> (count z + 1) * 3"
    using sl wl unfolding l by (simp_all add: add.commute)
  have cl: "count l = count b + count z + 1" by (simp add: l)
  have h1: "count b + count z + 1 + 1 \<le> (count r + 2) * 3" using heavy cl by simp
  have h2: "\<not> count b + count z + 1 + 1 \<le> (count r + 1) * 3" using unb cl by simp
  show ?thesis
  proof (cases "count b + 1 < (count z + 1) * 2")
    case single: True
    let ?t = "Node z (Node b r (of_nat (count r + count b)) k v)
                (of_nat (count r + count b + 1 + count z)) ck cv"
    have bd: "count r + count b + count z + 1 < 2 ^ 62" using bound cl by simp
    have "balance (Node l r cs k v) False = Inr ?t"
      unfolding l by (rule balance_single(2) [OF sr sb sz ccs bd h2 single])
    moreover have "rebalanced l r k v ?t"
    proof (rule rebalancedI)
      note ar = single_arith [OF h1 h2 bz single]
      show "sized ?t" using sr sb sz by (simp add: add.commute)
      show "wbal ?t" unfolding wbal.simps count.simps
        using wr wb wz ar by (simp add: add.commute)
      show "count ?t = count l + count r + 1" by (simp add: l)
      show "inorder ?t = inorder l @ (k, v) # inorder r" by (simp add: l)
    qed
    ultimately show ?thesis by blast
  next
    case double: False
    then obtain s y bcs bk bv where b: "b = Node y s bcs bk bv"
      by (cases b) auto
    have ss: "sized s" and sy: "sized y" and bcs: "bcs = of_nat (count s + count y)"
      and ws: "wbal s" and wy: "wbal y"
      and sy_bal: "count y + 1 \<le> (count s + 1) * 3" "count s + 1 \<le> (count y + 1) * 3"
      using sb wb unfolding b by (simp_all add: add.commute)
    have cb: "count b = count s + count y + 1" by (simp add: b)
    let ?t = "Node (Node z y (of_nat (count y + count z)) ck cv)
                   (Node s r (of_nat (count r + count s)) k v)
                   (of_nat (count r + count s + 1 + (count y + count z + 1))) bk bv"
    have ccs': "ccs = of_nat (count s + count y + 1 + count z)"
      using ccs cb by simp
    have bd: "count r + count s + count y + count z + 2 < 2 ^ 62" using bound cl cb by simp
    have g1: "(count s + count y + 1) + count z + 1 + 1 \<le> (count r + 2) * 3"
      using h1 cb by simp
    have g2: "\<not> (count s + count y + 1) + count z + 1 + 1 \<le> (count r + 1) * 3"
      using h2 cb by simp
    have g3: "count z + 1 \<le> ((count s + count y + 1) + 1) * 3"
      using bz(1) cb by simp
    have g4: "(count s + count y + 1) + 1 \<le> (count z + 1) * 3"
      using bz(2) cb by simp
    have g5: "\<not> (count s + count y + 1) + 1 < (count z + 1) * 2"
      using double cb by simp
    have "balance (Node l r cs k v) False = Inr ?t"
      unfolding l b by (rule balance_double(2) [OF sr ss sy sz bcs ccs' bd g2 g5])
    moreover have "rebalanced l r k v ?t"
    proof (rule rebalancedI)
      note ar = double_arith [OF g1 g2 g3 g4 g5 sy_bal]
      show "sized ?t" using sr ss sy sz by (simp add: add.commute)
      show "wbal ?t" unfolding wbal.simps count.simps
        using wr ws wy wz ar by (simp add: add.commute)
      show "count ?t = count l + count r + 1" by (simp add: l b)
      show "inorder ?t = inorder l @ (k, v) # inorder r" by (simp add: l b)
    qed
    ultimately show ?thesis by blast
  qed
qed

lemma visit_append:
  "visit f (xs @ ys) st =
     (case visit f xs st of (False, st') \<Rightarrow> (False, st') | (True, st') \<Rightarrow> visit f ys st')"
  by (induction xs arbitrary: st) (auto split: prod.splits bool.splits)

lemma nodes_empty_iff: "nodes t = [] \<longleftrightarrow> t = TNil"
  by (cases t) simp_all

lemma length_nodes: "length (nodes t) = count t"
  by (induction t) simp_all

lemma nodes_not_TNil: "x \<in> set (nodes t) \<Longrightarrow> x \<noteq> TNil"
  by (induction t) auto

lemma forEachNode_visit:
  "t \<noteq> TNil \<Longrightarrow>
   forEachNode t f reversed st =
     Inr (visit f (if reversed then rev (nodes t) else nodes t) st)"
proof (induction t arbitrary: st)
  case TNil
  then show ?case by simp
next
  case (Node l r cs k v)
  show ?case
  proof (cases reversed)
    case True
    show ?thesis
      using Node.IH(1) [of _] Node.IH(2) [of _] True
      by (cases "r = TNil"; cases "l = TNil")
         (auto simp: visit_append split: prod.splits bool.splits)
  next
    case False
    show ?thesis
      using Node.IH(1) [of _] Node.IH(2) [of _] False
      by (cases "r = TNil"; cases "l = TNil")
         (auto simp: visit_append split: prod.splits bool.splits)
  qed
qed

lemma visit_collect:
  "snd (visit (\<lambda>node result. (int (length (result @ [f node])) < m, result @ [f node])) xs acc)
     = acc @ map f (take (max 1 (nat m - length acc)) xs)"
proof (induction xs arbitrary: acc)
  case Nil
  then show ?case by simp
next
  case (Cons x xs)
  show ?case
  proof (cases "int (length acc) + 1 < m")
    case True
    then have "max 1 (nat m - length acc) = Suc (max 1 (nat m - length (acc @ [f x])))"
      by (simp add: max_def) linarith
    then show ?thesis using True Cons.IH [of "acc @ [f x]"] by simp
  next
    case False
    then have "max 1 (nat m - length acc) = 1" by (simp add: max_def) linarith
    then show ?thesis using False by simp
  qed
qed

lemma top_eq:
  assumes "t \<noteq> TNil" "0 \<le> sint (if Size t < n then Size t else n)"
  shows "top' t n reversed f =
           Inr (map f (take (max 1 (nat (sint n))) (if reversed then rev (nodes t) else nodes t)))"
proof -
  let ?cb = "\<lambda>node result. (int (length (result @ [f node])) < sint n, result @ [f node])"
  let ?xs = "if reversed then rev (nodes t) else nodes t"
  have "forEachNode t ?cb reversed [] = Inr (visit ?cb ?xs [])"
    using assms(1) by (rule forEachNode_visit)
  moreover have "snd (visit ?cb ?xs []) = map f (take (max 1 (nat (sint n))) ?xs)"
    using visit_collect [of f "sint n" ?xs "[]"] by simp
  ultimately obtain b where "forEachNode t ?cb reversed [] =
      Inr (b, map f (take (max 1 (nat (sint n))) ?xs))"
    by (cases "visit ?cb ?xs []") simp
  then show ?thesis
    using assms by (simp add: top'_def Let_def)
qed

lemma sint_of_nat64: "n < 2 ^ 63 \<Longrightarrow> sint (of_nat n :: uint64) = int n"
  by (simp add: signed_of_nat signed_take_bit_int_eq_self)

lemma Cmp_eq [simp]: "Cmp a b = 0 \<longleftrightarrow> a = b"
  by (simp add: Cmp_def)

lemma Cmp_less [simp]: "Cmp a b < 0 \<longleftrightarrow> a < b"
  by (simp add: Cmp_def)

lemma Cmp_greater [simp]: "0 < Cmp a b \<longleftrightarrow> b < a"
  by (auto simp: Cmp_def)

lemma keys_TNil [simp]: "keys TNil = {}"
  by (simp add: keys_def)

lemma keys_Node [simp]: "keys (Node l r cs k v) = keys l \<union> {k} \<union> keys r"
  by (auto simp: keys_def)

lemma finite_keys [simp]: "finite (keys t)"
  by (simp add: keys_def)

lemma bst_iff_sorted: "bst t \<longleftrightarrow> sorted_wrt (<) (map fst (inorder t))"
proof (induction t)
  case TNil
  then show ?case by simp
next
  case (Node l r cs k v)
  have "sorted_wrt (<) (map fst (inorder (Node l r cs k v))) \<longleftrightarrow>
        sorted_wrt (<) (map fst (inorder l)) \<and> sorted_wrt (<) (map fst (inorder r)) \<and>
        (\<forall>x \<in> keys l. x < k) \<and> (\<forall>y \<in> keys r. k < y) \<and>
        (\<forall>x \<in> keys l. \<forall>y \<in> keys r. x < y)"
    by (simp add: sorted_wrt_append keys_def) blast
  moreover have "\<forall>x \<in> keys l. \<forall>y \<in> keys r. x < y"
    if "\<forall>x \<in> keys l. x < k" "\<forall>y \<in> keys r. k < y"
    using that by (meson less_trans)
  ultimately show ?case
    using Node.IH by auto
qed

lemma lookup_TNil [simp]: "lookup TNil = Map.empty"
  by (simp add: lookup_def)

lemma lookup_Node: "lookup (Node l r cs k v) = (lookup r)(k \<mapsto> v) ++ lookup l"
  by (simp add: lookup_def)

lemma dom_lookup [simp]: "dom (lookup t) = keys t"
  by (simp add: lookup_def keys_def dom_map_of_conv_image_fst)

lemma lookup_None_iff: "lookup t k = None \<longleftrightarrow> k \<notin> keys t"
  using dom_lookup [of t] by blast

lemma card_keys: "bst t \<Longrightarrow> card (keys t) = count t"
proof -
  assume "bst t"
  then have "distinct (map fst (inorder t))"
    by (simp add: bst_iff_sorted strict_sorted_iff)
  then have "card (set (map fst (inorder t))) = length (map fst (inorder t))"
    by (rule distinct_card)
  moreover have "length (inorder t) = count t" by (induction t) simp_all
  ultimately show ?thesis by (simp add: keys_def)
qed

lemma Insert_if:
  "(if t = TNil then Inr (Node TNil TNil 0 key val, True) else Insert t key val) =
   Insert t key val"
  by simp

lemma rebalanced_bst:
  "rebalanced l r k v t' \<Longrightarrow> bst t' = bst (Node l r cs k v)"
  by (simp only: bst_iff_sorted rebalanced_def inorder.simps)

lemma rebalanced_lookup:
  "rebalanced l r k v t' \<Longrightarrow> lookup t' = lookup (Node l r cs k v)"
  by (simp only: lookup_def rebalanced_def inorder.simps)

lemma map_upd_here:
  assumes "ml k = None"
  shows "mr(k \<mapsto> val) ++ ml = (mr(k \<mapsto> v) ++ ml)(k \<mapsto> val)"
proof -
  have "k \<notin> dom ml" using assms by (simp add: domIff)
  then show ?thesis by (simp add: map_add_upd_left)
qed

lemma map_upd_right:
  assumes "ml key = None" "key \<noteq> k"
  shows "(mr(key \<mapsto> val))(k \<mapsto> v) ++ ml = (mr(k \<mapsto> v) ++ ml)(key \<mapsto> val)"
proof -
  have d: "key \<notin> dom ml" using assms by (simp add: domIff)
  have "(mr(key \<mapsto> val))(k \<mapsto> v) = (mr(k \<mapsto> v))(key \<mapsto> val)"
    using assms(2) by (rule fun_upd_twist)
  then show ?thesis using map_add_upd_left [OF d, of "mr(k \<mapsto> v)" val] by simp
qed

lemma inserted_keys:
  assumes "inserted t key val t' added"
  shows "keys t' = insert key (keys t)"
proof -
  have "dom (lookup t') = dom ((lookup t)(key \<mapsto> val))"
    using assms by (simp only: inserted_def)
  then show ?thesis by simp
qed

lemma Insert_ok:
  assumes "sized t" "wbal t" "bst t" "count t + 1 < 2 ^ 62"
  shows "\<exists>t' added. Insert t key val = Inr (t', added) \<and> inserted t key val t' added"
  using assms
proof (induction t)
  case TNil
  have "inserted TNil key val (Node TNil TNil 0 key val) True"
    by (simp add: inserted_def lookup_def)
  then show ?case by auto
next
  case (Node l r cs k v)
  have sl: "sized l" and sr: "sized r" and wl: "wbal l" and wr: "wbal r"
    and bl: "bst l" and br: "bst r" and cs: "cs = of_nat (count l + count r)"
    and lr: "count r + 1 \<le> (count l + 1) * 3" "count l + 1 \<le> (count r + 1) * 3"
    and kl: "\<forall>k' \<in> keys l. k' < k" and kr: "\<forall>k' \<in> keys r. k < k'"
    using Node.prems by simp_all
  have bound: "count l + count r + 2 < 2 ^ 62" using Node.prems(4) by simp
  consider (eq) "k = key" | (right) "k < key" | (left) "key < k"
    by (rule linorder_cases [of k key]) auto
  then show ?case
  proof cases
    case eq
    have "lookup (Node l r cs k val) = (lookup (Node l r cs k v))(key \<mapsto> val)"
      using kl eq map_upd_here [of "lookup l" k "lookup r" val v]
      by (auto simp: lookup_Node lookup_None_iff)
    then have "inserted (Node l r cs k v) key val (Node l r cs k val) False"
      using Node.prems eq by (simp add: inserted_def)
    moreover have "Insert (Node l r cs k v) key val = Inr (Node l r cs k val, False)"
      using eq by simp
    ultimately show ?thesis by blast
  next
    case right
    have "count r + 1 < 2 ^ 62" using bound by simp
    from Node.IH(2) [OF sr wr br this]
    obtain r' added where ins: "Insert r key val = Inr (r', added)"
      and r': "inserted r key val r' added" by blast
    have nk: "key \<notin> keys l" "key \<noteq> k" and ne: "k \<noteq> key" "\<not> key < k"
      using kl right by auto
    have lk: "lookup (Node l r' c k v) = (lookup (Node l r cs k v))(key \<mapsto> val)" for c
      using r' nk map_upd_right [of "lookup l" key k "lookup r" val v]
      by (simp add: inserted_def lookup_Node lookup_None_iff)
    have bst': "bst (Node l r' c k v)" for c
    proof -
      have "bst r'" using r' by (simp add: inserted_def)
      then show "bst (Node l r' c k v)"
        using bl kl kr right inserted_keys [OF r'] by simp
    qed
    show ?thesis
    proof (cases added)
      case False
      then have "Insert (Node l r cs k v) key val = Inr (Node l r' cs k v, False)"
        using right ne ins by (simp add: Insert_if)
      moreover have "inserted (Node l r cs k v) key val (Node l r' cs k v) False"
        using r' False sl wl lr cs lk bst' nk
        by (simp add: inserted_def)
      ultimately show ?thesis by blast
    next
      case True
      have cr': "count r' = count r + 1" using r' True by (simp add: inserted_def)
      have cs1: "cs + 1 = of_nat (count l + count r')" using cs cr' by simp
      have sr': "sized r'" and wr': "wbal r'" using r' by (simp_all add: inserted_def)
      have b': "count l + count r' + 1 < 2 ^ 62" using bound cr' by simp
      have light: "count l + 1 \<le> (count r' + 1) * 3" using lr cr' by simp
      have heavy: "count r' + 1 \<le> (count l + 2) * 3" using lr cr' by simp
      have "\<exists>t'. balance (Node l r' (cs + 1) k v) True = Inr t' \<and> rebalanced l r' k v t'"
        by (rule balance_right_ok [OF sl sr' wl wr' cs1 b' light heavy])
      then obtain t' where bal: "balance (Node l r' (cs + 1) k v) True = Inr t'"
        and reb: "rebalanced l r' k v t'" by blast
      have "Insert (Node l r cs k v) key val = Inr (t', True)"
        using right ne ins True bal by (simp add: Insert_if)
      moreover have "inserted (Node l r cs k v) key val t' True"
      proof -
        have "sized t'" "wbal t'" "count t' = count l + count r' + 1"
          using reb by (simp_all add: rebalanced_def)
        moreover have "bst t'"
          using rebalanced_bst [OF reb, of "cs + 1"] bst' [of "cs + 1"] by simp
        moreover have "lookup t' = (lookup (Node l r cs k v))(key \<mapsto> val)"
          using rebalanced_lookup [OF reb, of "cs + 1"] lk [of "cs + 1"] by simp
        moreover have "key \<notin> keys (Node l r cs k v)"
          using r' True nk by (simp add: inserted_def)
        ultimately show ?thesis
          using cr' unfolding inserted_def by simp
      qed
      ultimately show ?thesis by blast
    qed
  next
    case left
    have "count l + 1 < 2 ^ 62" using bound by simp
    from Node.IH(1) [OF sl wl bl this]
    obtain l' added where ins: "Insert l key val = Inr (l', added)"
      and l': "inserted l key val l' added" by blast
    have nk: "key \<notin> keys r" "key \<noteq> k" and ne: "k \<noteq> key" "\<not> k < key"
      using kr left by auto
    have lk: "lookup (Node l' r c k v) = (lookup (Node l r cs k v))(key \<mapsto> val)" for c
      using l' by (simp add: inserted_def lookup_Node)
    have bst': "bst (Node l' r c k v)" for c
    proof -
      have "bst l'" using l' by (simp add: inserted_def)
      then show "bst (Node l' r c k v)"
        using br kl kr left inserted_keys [OF l'] by simp
    qed
    show ?thesis
    proof (cases added)
      case False
      then have "Insert (Node l r cs k v) key val = Inr (Node l' r cs k v, False)"
        using left ne ins by (simp add: Insert_if)
      moreover have "inserted (Node l r cs k v) key val (Node l' r cs k v) False"
        using l' False sr wr lr cs lk bst' nk
        by (simp add: inserted_def)
      ultimately show ?thesis by blast
    next
      case True
      have cl': "count l' = count l + 1" using l' True by (simp add: inserted_def)
      have cs1: "cs + 1 = of_nat (count l' + count r)" using cs cl' by simp
      have sl': "sized l'" and wl': "wbal l'" using l' by (simp_all add: inserted_def)
      have b': "count l' + count r + 1 < 2 ^ 62" using bound cl' by simp
      have light: "count r + 1 \<le> (count l' + 1) * 3" using lr cl' by simp
      have heavy: "count l' + 1 \<le> (count r + 2) * 3" using lr cl' by simp
      have "\<exists>t'. balance (Node l' r (cs + 1) k v) False = Inr t' \<and> rebalanced l' r k v t'"
        by (rule balance_left_ok [OF sl' sr wl' wr cs1 b' light heavy])
      then obtain t' where bal: "balance (Node l' r (cs + 1) k v) False = Inr t'"
        and reb: "rebalanced l' r k v t'" by blast
      have "Insert (Node l r cs k v) key val = Inr (t', True)"
        using left ne ins True bal by (simp add: Insert_if)
      moreover have "inserted (Node l r cs k v) key val t' True"
      proof -
        have "sized t'" "wbal t'" "count t' = count l' + count r + 1"
          using reb by (simp_all add: rebalanced_def)
        moreover have "bst t'"
          using rebalanced_bst [OF reb, of "cs + 1"] bst' [of "cs + 1"] by simp
        moreover have "lookup t' = (lookup (Node l r cs k v))(key \<mapsto> val)"
          using rebalanced_lookup [OF reb, of "cs + 1"] lk [of "cs + 1"] by simp
        moreover have "key \<notin> keys (Node l r cs k v)"
          using l' True nk by (simp add: inserted_def)
        ultimately show ?thesis
          using cl' unfolding inserted_def by simp
      qed
      ultimately show ?thesis by blast
    qed
  qed
qed

lemma inorder_nodes: "map (\<lambda>n. (RootKey zk n, RootValue zv n)) (nodes t) = inorder t"
  by (induction t) simp_all

lemma LeastNode_eq:
  assumes "t \<noteq> TNil"
  shows "LeastNode t = Inr (hd (nodes t))"
proof -
  have "0 \<le> sint (if Size t < 1 then Size t else (1 :: 64 word))"
    by (simp add: word_less_1)
  then have "Least' t 1 = Inr (map identity (take (max 1 (nat (sint (1 :: 64 word)))) (nodes t)))"
    unfolding Least'_def using top_eq [OF assms, of 1 False identity] by simp
  moreover have "nodes t \<noteq> []" using assms by (simp add: nodes_empty_iff)
  ultimately show ?thesis
    by (cases "nodes t") (simp_all add: LeastNode_def identity_def)
qed

lemma LeastNode_min:
  assumes "t \<noteq> TNil" "bst t"
  shows "\<exists>ml mr mcs mk mv. LeastNode t = Inr (Node ml mr mcs mk mv) \<and>
           lookup t mk = Some mv \<and> (\<forall>k' \<in> keys t. mk \<le> k')"
proof -
  obtain n ns where ns: "nodes t = n # ns"
    using assms(1) by (cases "nodes t") (simp_all add: nodes_empty_iff)
  then have "n \<noteq> TNil" using nodes_not_TNil [of n t] by simp
  then obtain ml mr mcs mk mv where n: "n = Node ml mr mcs mk mv" by (cases n) auto
  have io: "inorder t = (mk, mv) # map (\<lambda>n. (RootKey mk n, RootValue mv n)) ns"
    using inorder_nodes [of mk mv t] ns n by simp
  have "sorted_wrt (<) (map fst (inorder t))" using assms(2) by (simp add: bst_iff_sorted)
  then have "\<forall>k' \<in> keys t. mk \<le> k'" unfolding io keys_def by auto
  moreover have "lookup t mk = Some mv" unfolding lookup_def io by simp
  moreover have "LeastNode t = Inr (Node ml mr mcs mk mv)"
    using LeastNode_eq [OF assms(1)] ns n by simp
  ultimately show ?thesis by blast
qed

lemma map_del_two:
  assumes "ml k = None" "mr k = None" "mr mk = Some mv"
  shows "(mr(mk := None))(mk \<mapsto> mv) ++ ml = (mr(k \<mapsto> v) ++ ml)(k := None)"
proof (rule ext)
  fix x
  have "(mr(mk := None))(mk \<mapsto> mv) = mr" using assms(3) by (simp add: fun_upd_idem)
  then show "((mr(mk := None))(mk \<mapsto> mv) ++ ml) x = ((mr(k \<mapsto> v) ++ ml)(k := None)) x"
    using assms(1,2) by (cases "x = k") (simp_all add: map_add_def split: option.splits)
qed

lemma map_del_right:
  assumes "ml key = None" "key \<noteq> k"
  shows "(mr(key := None))(k \<mapsto> v) ++ ml = (mr(k \<mapsto> v) ++ ml)(key := None)"
proof (rule ext)
  fix x
  show "((mr(key := None))(k \<mapsto> v) ++ ml) x = ((mr(k \<mapsto> v) ++ ml)(key := None)) x"
    using assms by (cases "x = key") (simp_all add: map_add_def split: option.splits)
qed

lemma map_del_left:
  assumes "mr key = None" "key \<noteq> k"
  shows "mr(k \<mapsto> v) ++ ml(key := None) = (mr(k \<mapsto> v) ++ ml)(key := None)"
proof (rule ext)
  fix x
  show "(mr(k \<mapsto> v) ++ ml(key := None)) x = ((mr(k \<mapsto> v) ++ ml)(key := None)) x"
    using assms by (cases "x = key") (simp_all add: map_add_def split: option.splits)
qed

lemma removed_ok_keys:
  assumes "removed_ok t key t' removed"
  shows "keys t' = keys t - {key}"
proof -
  have "dom (lookup t') = dom ((lookup t)(key := None))"
    using assms by (simp only: removed_ok_def)
  then show ?thesis by simp
qed

lemma Remove_ok:
  assumes "sized t" "wbal t" "bst t" "count t < 2 ^ 62"
  shows "\<exists>t' removed. Remove t key = Inr (t', removed) \<and> removed_ok t key t' removed"
  using assms
proof (induction t arbitrary: key)
  case TNil
  have "removed_ok TNil key TNil False" by (simp add: removed_ok_def)
  then show ?case by auto
next
  case (Node l r cs k v)
  have sl: "sized l" and sr: "sized r" and wl: "wbal l" and wr: "wbal r"
    and bl: "bst l" and br: "bst r" and cs: "cs = of_nat (count l + count r)"
    and lr: "count r + 1 \<le> (count l + 1) * 3" "count l + 1 \<le> (count r + 1) * 3"
    and kl: "\<forall>k' \<in> keys l. k' < k" and kr: "\<forall>k' \<in> keys r. k < k'"
    using Node.prems by simp_all
  have bound: "count l + count r + 1 < 2 ^ 62" using Node.prems(4) by simp
  have cl: "count l < 2 ^ 62" and cr: "count r < 2 ^ 62" using bound by simp_all
  have nkl: "lookup l k = None" and nkr: "lookup r k = None"
    using kl kr by (auto simp: lookup_None_iff)
  let ?t = "Node l r cs k v"
  consider (eq) "k = key" | (right) "k < key" | (left) "key < k"
    by (rule linorder_cases [of k key]) auto
  then show ?case
  proof cases
    case eq
    consider (leaf) "l = TNil" "r = TNil" | (two) "l \<noteq> TNil" "r \<noteq> TNil"
      | (onlyr) "l = TNil" "r \<noteq> TNil" | (onlyl) "l \<noteq> TNil" "r = TNil"
      by blast
    then show ?thesis
    proof cases
      case leaf
      have "Remove ?t key = Inr (TNil, True)" using eq leaf by simp
      moreover have "removed_ok ?t key TNil True"
        using eq leaf by (simp add: removed_ok_def lookup_Node)
      ultimately show ?thesis by blast
    next
      case onlyr
      have "Remove ?t key = Inr (r, True)" using eq onlyr by simp
      moreover have "lookup r = (lookup ?t)(key := None)"
        using nkr eq onlyr by (simp add: lookup_Node fun_upd_idem)
      then have "removed_ok ?t key r True"
        using eq onlyr sr wr br by (simp add: removed_ok_def)
      ultimately show ?thesis by blast
    next
      case onlyl
      have "Remove ?t key = Inr (l, True)" using eq onlyl by simp
      moreover have "lookup l = (lookup ?t)(key := None)"
      proof (rule ext)
        fix x
        show "lookup l x = ((lookup ?t)(key := None)) x"
          using nkl eq onlyl
          by (cases "x = k") (simp_all add: lookup_Node map_add_def split: option.splits)
      qed
      then have "removed_ok ?t key l True"
        using eq onlyl sl wl bl by (simp add: removed_ok_def)
      ultimately show ?thesis by blast
    next
      case two
      from LeastNode_min [OF two(2) br]
      obtain ml mr mcs mk mv where least: "LeastNode r = Inr (Node ml mr mcs mk mv)"
        and lmk: "lookup r mk = Some mv" and minr: "\<forall>k' \<in> keys r. mk \<le> k'"
        by blast
      have mkr: "mk \<in> keys r" using lmk dom_lookup [of r] by blast
      from Node.IH(2) [OF sr wr br cr, of mk]
      obtain r' rem where rm: "Remove r mk = Inr (r', rem)"
        and r': "removed_ok r mk r' rem" by blast
      have sr': "sized r'" and wr': "wbal r'" and br': "bst r'"
        and cr': "count r = count r' + 1" and lr': "lookup r' = (lookup r)(mk := None)"
        using r' mkr by (simp_all add: removed_ok_def)
      have kr': "keys r' = keys r - {mk}" by (rule removed_ok_keys [OF r'])
      have cs1: "cs - 1 = of_nat (count l + count r')" using cs cr' by simp
      have b': "count l + count r' + 1 < 2 ^ 62" using bound cr' by simp
      have light: "count r' + 1 \<le> (count l + 1) * 3" using lr cr' by simp
      have heavy: "count l + 1 \<le> (count r' + 2) * 3" using lr cr' by simp
      from balance_left_ok [OF sl sr' wl wr' cs1 b' light heavy, of mk mv]
      obtain t' where bal: "balance (Node l r' (cs - 1) mk mv) False = Inr t'"
        and reb: "rebalanced l r' mk mv t'" by blast
      have "Remove ?t key = Inr (t', True)"
        using eq two least rm bal by simp
      moreover have "removed_ok ?t key t' True"
      proof -
        have "\<forall>k' \<in> keys l. k' < mk"
          using kl kr mkr by (meson less_trans)
        moreover have "\<forall>k' \<in> keys r'. mk < k'"
          using kr' minr by (auto simp: less_le)
        ultimately have "bst (Node l r' (cs - 1) mk mv)"
          using bl br' by simp
        then have "bst t'" using rebalanced_bst [OF reb, of "cs - 1"] by simp
        moreover have "sized t'" "wbal t'" "count t' = count l + count r' + 1"
          using reb by (simp_all add: rebalanced_def)
        moreover have "lookup t' = (lookup ?t)(key := None)"
          using rebalanced_lookup [OF reb, of "cs - 1"] lr' eq
            map_del_two [of "lookup l" k "lookup r" mk mv v] nkl nkr lmk
          by (simp add: lookup_Node)
        ultimately show ?thesis
          using cr' eq unfolding removed_ok_def by simp
      qed
      ultimately show ?thesis by blast
    qed
  next
    case right
    have nk: "key \<notin> keys l" "key \<noteq> k" and ne: "k \<noteq> key" "\<not> key < k"
      using kl right by auto
    from Node.IH(2) [OF sr wr br cr, of key]
    obtain r' rem where rm: "Remove r key = Inr (r', rem)"
      and r': "removed_ok r key r' rem" by blast
    show ?thesis
    proof (cases rem)
      case False
      have "Remove ?t key = Inr (?t, False)"
        using right ne rm False by simp
      moreover have "key \<notin> keys ?t" using r' False nk by (simp add: removed_ok_def)
      then have "removed_ok ?t key ?t False"
        using Node.prems(1-3) lookup_None_iff [of ?t key]
        by (simp add: removed_ok_def del: sized.simps wbal.simps bst.simps keys_Node)
      ultimately show ?thesis by blast
    next
      case True
      have sr': "sized r'" and wr': "wbal r'" and br': "bst r'"
        and cr': "count r = count r' + 1" and lr': "lookup r' = (lookup r)(key := None)"
        and kin: "key \<in> keys r"
        using r' True by (simp_all add: removed_ok_def)
      have kr': "keys r' = keys r - {key}" by (rule removed_ok_keys [OF r'])
      have cs1: "cs - 1 = of_nat (count l + count r')" using cs cr' by simp
      have b': "count l + count r' + 1 < 2 ^ 62" using bound cr' by simp
      have light: "count r' + 1 \<le> (count l + 1) * 3" using lr cr' by simp
      have heavy: "count l + 1 \<le> (count r' + 2) * 3" using lr cr' by simp
      from balance_left_ok [OF sl sr' wl wr' cs1 b' light heavy, of k v]
      obtain t' where bal: "balance (Node l r' (cs - 1) k v) False = Inr t'"
        and reb: "rebalanced l r' k v t'" by blast
      have "Remove ?t key = Inr (t', True)"
        using right ne rm True bal by simp
      moreover have "removed_ok ?t key t' True"
      proof -
        have "sized t'" "wbal t'" "count t' = count l + count r' + 1"
          using reb by (simp_all add: rebalanced_def)
        moreover have "bst (Node l r' (cs - 1) k v)"
          using bl br' kl kr kr' by simp
        then have "bst t'" using rebalanced_bst [OF reb, of "cs - 1"] by simp
        moreover have "lookup t' = (lookup ?t)(key := None)"
          using rebalanced_lookup [OF reb, of "cs - 1"] lr'
            map_del_right [of "lookup l" key k "lookup r" v] nk
          by (simp add: lookup_Node lookup_None_iff)
        ultimately show ?thesis
          using cr' kin unfolding removed_ok_def by simp
      qed
      ultimately show ?thesis by blast
    qed
  next
    case left
    have nk: "key \<notin> keys r" "key \<noteq> k" and ne: "k \<noteq> key" "\<not> k < key"
      using kr left by auto
    from Node.IH(1) [OF sl wl bl cl, of key]
    obtain l' rem where rm: "Remove l key = Inr (l', rem)"
      and l': "removed_ok l key l' rem" by blast
    show ?thesis
    proof (cases rem)
      case False
      have "Remove ?t key = Inr (?t, False)"
        using left ne rm False by simp
      moreover have "key \<notin> keys ?t" using l' False nk by (simp add: removed_ok_def)
      then have "removed_ok ?t key ?t False"
        using Node.prems(1-3) lookup_None_iff [of ?t key]
        by (simp add: removed_ok_def del: sized.simps wbal.simps bst.simps keys_Node)
      ultimately show ?thesis by blast
    next
      case True
      have sl': "sized l'" and wl': "wbal l'" and bl': "bst l'"
        and cl': "count l = count l' + 1" and ll': "lookup l' = (lookup l)(key := None)"
        and kin: "key \<in> keys l"
        using l' True by (simp_all add: removed_ok_def)
      have kl': "keys l' = keys l - {key}" by (rule removed_ok_keys [OF l'])
      have cs1: "cs - 1 = of_nat (count l' + count r)" using cs cl' by simp
      have b': "count l' + count r + 1 < 2 ^ 62" using bound cl' by simp
      have light: "count l' + 1 \<le> (count r + 1) * 3" using lr cl' by simp
      have heavy: "count r + 1 \<le> (count l' + 2) * 3" using lr cl' by simp
      from balance_right_ok [OF sl' sr wl' wr cs1 b' light heavy, of k v]
      obtain t' where bal: "balance (Node l' r (cs - 1) k v) True = Inr t'"
        and reb: "rebalanced l' r k v t'" by blast
      have "Remove ?t key = Inr (t', True)"
        using left ne rm True bal by simp
      moreover have "removed_ok ?t key t' True"
      proof -
        have "sized t'" "wbal t'" "count t' = count l' + count r + 1"
          using reb by (simp_all add: rebalanced_def)
        moreover have "bst (Node l' r (cs - 1) k v)"
          using bl' br kl kr kl' by simp
        then have "bst t'" using rebalanced_bst [OF reb, of "cs - 1"] by simp
        moreover have "lookup t' = (lookup ?t)(key := None)"
          using rebalanced_lookup [OF reb, of "cs - 1"] ll'
            map_del_left [of "lookup r" key k v "lookup l"] nk
          by (simp add: lookup_Node lookup_None_iff)
        ultimately show ?thesis
          using cl' kin unfolding removed_ok_def by simp
      qed
      ultimately show ?thesis by blast
    qed
  qed
qed

lemma apply_op_ok:
  assumes "valid t" "count t + 1 < 2 ^ 62"
  shows "\<exists>t'. apply_op t x = Inr t' \<and> valid t' \<and> count t' \<le> count t + 1 \<and>
           lookup t' = model_op (lookup t) x"
proof (cases x)
  case (OpInsert key val)
  from Insert_ok [of t key val] assms
  obtain t' added where "Insert t key val = Inr (t', added)" "inserted t key val t' added"
    unfolding valid_def by blast
  then show ?thesis
    unfolding OpInsert by (simp add: inserted_def valid_def)
next
  case (OpRemove key)
  have "count t < 2 ^ 62" using assms(2) by simp
  from Remove_ok [of t key] assms(1) this
  obtain t' removed where "Remove t key = Inr (t', removed)" "removed_ok t key t' removed"
    unfolding valid_def by blast
  then show ?thesis
    unfolding OpRemove by (simp add: removed_ok_def valid_def)
qed

lemma run_ok:
  assumes "valid t" "count t + length ops < 2 ^ 62"
  shows "\<exists>t'. run t ops = Inr t' \<and> valid t' \<and> count t' \<le> count t + length ops \<and>
           lookup t' = foldl model_op (lookup t) ops"
  using assms
proof (induction ops arbitrary: t)
  case Nil
  then show ?case by simp
next
  case (Cons x xs)
  have "count t + 1 < 2 ^ 62" using Cons.prems(2) by simp
  from apply_op_ok [OF Cons.prems(1) this, of x]
  obtain t1 where t1: "apply_op t x = Inr t1" "valid t1" "count t1 \<le> count t + 1"
    "lookup t1 = model_op (lookup t) x" by blast
  have "count t1 + length xs < 2 ^ 62" using t1(3) Cons.prems(2) by simp
  from Cons.IH [OF t1(2) this]
  obtain t' where t': "run t1 xs = Inr t'" "valid t'" "count t' \<le> count t1 + length xs"
    "lookup t' = foldl model_op (lookup t1) xs" by blast
  have "run t (x # xs) = Inr t'" using t1(1) t'(1) by simp
  moreover have "count t' \<le> count t + length (x # xs)" using t'(3) t1(3) by simp
  moreover have "lookup t' = foldl model_op (lookup t) (x # xs)" using t'(4) t1(4) by simp
  ultimately show ?case using t'(2) by blast
qed

lemma run_empty_ok:
  assumes "length ops < 2 ^ 62"
  shows "\<exists>t. run TNil ops = Inr t \<and> valid t \<and> count t < 2 ^ 62 \<and> lookup t = model ops"
proof -
  have "valid (TNil :: ('a, 'b) tree)" by (simp add: valid_def)
  moreover have "count (TNil :: ('a, 'b) tree) + length ops < 2 ^ 62" using assms by simp
  ultimately obtain t where t: "run TNil ops = Inr t" "valid t"
    "count t \<le> count (TNil :: ('a, 'b) tree) + length ops"
    "lookup t = foldl model_op (lookup (TNil :: ('a, 'b) tree)) ops"
    using run_ok [of "TNil :: ('a, 'b) tree" ops] by blast
  have "count t < 2 ^ 62" using t(3) assms by simp
  moreover have "lookup t = model ops" using t(4) by (simp add: model_def)
  ultimately show ?thesis using t(1,2) by blast
qed

lemma lookup_Node_bst:
  assumes "bst (Node l r cs k v)"
  shows "lookup (Node l r cs k v) key =
      (if key = k then Some v else if k < key then lookup r key else lookup l key)"
proof -
  have kl: "\<forall>k' \<in> keys l. k' < k" and kr: "\<forall>k' \<in> keys r. k < k'"
    using assms by simp_all
  have "lookup l k = None" using kl by (auto simp: lookup_None_iff)
  moreover have "lookup l key = None" if "k < key"
    using kl that by (auto simp: lookup_None_iff)
  moreover have "lookup r key = None" if "key < k"
    using kr that by (auto simp: lookup_None_iff)
  ultimately show ?thesis
    by (auto simp: lookup_Node map_add_def split: option.splits)
qed

lemma GetNode_lookup:
  assumes "bst t"
  shows "(GetNode t key = TNil \<longleftrightarrow> lookup t key = None) \<and>
         RootValue zv (GetNode t key) = (case lookup t key of None \<Rightarrow> zv | Some v \<Rightarrow> v)"
  using assms
proof (induction t)
  case TNil
  show ?case by simp
next
  case (Node l r cs k v)
  have bl: "bst l" and br: "bst r" using Node.prems by simp_all
  note lk = lookup_Node_bst [OF Node.prems, of key]
  consider (eq) "k = key" | (right) "k < key" | (left) "key < k"
    by (rule linorder_cases [of k key]) auto
  then show ?case
  proof cases
    case eq
    then show ?thesis using lk by simp
  next
    case right
    then have ne: "k \<noteq> key" "key \<noteq> k" by auto
    show ?thesis
      using Node.IH(2) [OF br] lk right ne
      by (cases "r = TNil") simp_all
  next
    case left
    then have ne: "k \<noteq> key" "key \<noteq> k" "\<not> k < key" by auto
    show ?thesis
      using Node.IH(1) [OF bl] lk left ne
      by (cases "l = TNil") simp_all
  qed
qed

lemma unat_Size: "sized t \<Longrightarrow> count t < 2 ^ 64 \<Longrightarrow> unat (Size t) = count t"
  by (simp add: Size_count unat_of_nat64)

lemma sint_unat64: "unat (x :: uint64) < 2 ^ 63 \<Longrightarrow> sint x = int (unat x)"
  using sint_of_nat64 [of "unat x"] by simp

lemma sint_Size: "sized t \<Longrightarrow> count t < 2 ^ 63 \<Longrightarrow> sint (Size t) = int (count t)"
  by (simp add: Size_count sint_of_nat64)

lemma top_capacity_ok:
  assumes "sized t" "count t < 2 ^ 63"
  shows "0 \<le> sint (if Size t < n then Size t else n)"
proof (cases "Size t < n")
  case True
  then show ?thesis using sint_Size [OF assms] by simp
next
  case False
  then have "unat n \<le> unat (Size t)" by (simp add: word_le_nat_alt not_less)
  moreover have "unat (Size t) = count t" using assms by (intro unat_Size) simp_all
  ultimately have "unat n < 2 ^ 63" using assms(2) by simp
  then show ?thesis using False sint_unat64 [of n] by simp
qed

lemma top_returns:
  assumes "sized t" "count t < 2 ^ 63"
  shows "top' t n reversed f =
           Inr (map f (take (max 1 (nat (sint n))) (if reversed then rev (nodes t) else nodes t)))"
proof (cases "t = TNil")
  case True
  then show ?thesis by (simp add: top'_def)
next
  case False
  show ?thesis by (rule top_eq [OF False top_capacity_ok [OF assms]])
qed

lemma top_all:
  assumes "sized t" "count t < 2 ^ 63"
  shows "top' t (Size t) reversed f = Inr (map f (if reversed then rev (nodes t) else nodes t))"
proof -
  let ?xs = "if reversed then rev (nodes t) else nodes t"
  have "nat (sint (Size t)) = length (nodes t)"
    using sint_Size [OF assms] by (simp add: length_nodes)
  moreover have "length ?xs = length (nodes t)" by simp
  ultimately have "take (max 1 (nat (sint (Size t)))) ?xs = ?xs"
    by (simp only: take_all_iff max.cobounded2)
  then show ?thesis using top_returns [OF assms, of "Size t" reversed f] by (simp only:)
qed

lemma map_key_nodes: "map (getKeyFunc zk) (nodes t) = map fst (inorder t)"
  using inorder_nodes [of zk undefined t, symmetric] by (simp add: getKeyFunc_def comp_def)

lemma map_val_nodes: "map (getValFunc zv) (nodes t) = map snd (inorder t)"
  using inorder_nodes [of undefined zv t, symmetric] by (simp add: getValFunc_def comp_def)

lemma Keys_eq:
  assumes "sized t" "count t < 2 ^ 63"
  shows "Keys zk t = Inr (map fst (inorder t))"
  using top_all [OF assms, of False "getKeyFunc zk"]
  by (simp add: Keys_def LeastKeys_def map_key_nodes)

lemma Values_eq:
  assumes "sized t" "count t < 2 ^ 63"
  shows "Values zv t = Inr (map snd (inorder t))"
  using top_all [OF assms, of False "getValFunc zv"]
  by (simp add: Values_def LeastValues_def map_val_nodes)

lemma sized_sizes_ok: "sized t \<Longrightarrow> count t < 2 ^ 64 \<Longrightarrow> sizes_ok t"
proof (induction t)
  case TNil
  then show ?case by simp
next
  case (Node l r cs k v)
  have b: "count l < 2 ^ 64" "count r < 2 ^ 64" "count l + count r < 2 ^ 64"
    using Node.prems(2) by simp_all
  have sl: "sized l" and sr: "sized r" and cs: "cs = of_nat (count l + count r)"
    using Node.prems(1) by simp_all
  have "unat cs = count l + count r" unfolding cs by (rule unat_of_nat64 [OF b(3)])
  then show ?case
    using Node.IH(1) [OF sl b(1)] Node.IH(2) [OF sr b(2)]
      unat_Size [OF sl b(1)] unat_Size [OF sr b(2)]
    by simp
qed

lemma wbal_weight_balanced:
  "sized t \<Longrightarrow> wbal t \<Longrightarrow> count t < 2 ^ 64 \<Longrightarrow> weight_balanced t"
proof (induction t)
  case TNil
  then show ?case by simp
next
  case (Node l r cs k v)
  have b: "count l < 2 ^ 64" "count r < 2 ^ 64"
    using Node.prems(3) by simp_all
  have sl: "sized l" and sr: "sized r" and wl: "wbal l" and wr: "wbal r"
    and lr: "count r + 1 \<le> (count l + 1) * 3" "count l + 1 \<le> (count r + 1) * 3"
    using Node.prems(1,2) by simp_all
  show ?case
    using Node.IH(1) [OF sl wl b(1)] Node.IH(2) [OF sr wr b(2)]
      unat_Size [OF sl b(1)] unat_Size [OF sr b(2)] lr
    by simp
qed

text \<open>
  C1. After every sequence of (fewer than \<open>2 ^ 62\<close>) insertions and removals applied to the
  empty tree, every call has returned and every node of the tree is weight-balanced with
  delta = 3, by the cached sizes and by the true node counts alike.
\<close>

theorem weight_balance_after_ops:
  assumes "length ops < 2 ^ 62"
  shows "\<exists>t. run TNil ops = Inr t \<and> weight_balanced t \<and> wbal t"
proof -
  from run_empty_ok [OF assms]
  obtain t where t: "run TNil ops = Inr t" "valid t" "count t < 2 ^ 62" by blast
  have "count t < 2 ^ 64" using t(3) by simp
  then have "weight_balanced t" using t(2) by (simp add: valid_def wbal_weight_balanced)
  then show ?thesis using t(1,2) by (auto simp: valid_def)
qed

theorem weight_balance_after_ops_witness:
  "length [OpInsert (1::nat) ''a'', OpInsert 2 ''b'', OpInsert 3 ''c'', OpInsert 4 ''d'',
           OpInsert 5 ''e'', OpRemove 1, OpRemove 9] < 2 ^ 62 \<and>
   run TNil [OpInsert (1::nat) ''a'', OpInsert 2 ''b'', OpInsert 3 ''c'', OpInsert 4 ''d'',
             OpInsert 5 ''e'', OpRemove 1, OpRemove 9] =
     Inr (Node (Node TNil TNil 0 2 ''b'') (Node TNil (Node TNil TNil 0 5 ''e'') 1 4 ''d'') 3 3 ''c'') \<and>
   weight_balanced (Node (Node TNil TNil 0 (2::nat) ''b'') (Node TNil (Node TNil TNil 0 5 ''e'') 1 4 ''d'') 3 3 ''c'') \<and>
   wbal (Node (Node TNil TNil 0 (2::nat) ''b'') (Node TNil (Node TNil TNil 0 5 ''e'') 1 4 ''d'') 3 3 ''c'')"
  using weight_balance_after_ops
    [of "[OpInsert (1::nat) ''a'', OpInsert 2 ''b'', OpInsert 3 ''c'', OpInsert 4 ''d'',
          OpInsert 5 ''e'', OpRemove 1, OpRemove 9]"]
  by (simp add: treeDelta_def treeGamma_def node_def LeastNode_def Least'_def top'_def
      identity_def Let_def Cmp_def)

lemma dom_foldl_inserts:
  "dom (foldl model_op m (map (\<lambda>(k, v). OpInsert k v) kvs)) = dom m \<union> fst ` set kvs"
  by (induction kvs arbitrary: m) (auto split: prod.splits)

lemma dom_model_inserts:
  "dom (model (map (\<lambda>(k, v). OpInsert k v) kvs)) = set (map fst kvs)"
  by (simp add: model_def dom_foldl_inserts)

lemma strict_sorted_unique:
  assumes "sorted_wrt (<) xs" "sorted_wrt (<) ys" "set xs = set ys"
  shows "xs = (ys :: 'a::linorder list)"
  using assms by (intro sorted_distinct_set_unique) (simp_all add: strict_sorted_iff)

lemma keys_dom_lookup: "set (map fst (inorder t)) = dom (lookup t)"
  by (simp add: keys_def)

text \<open>
  C2. After every sequence of (fewer than \<open>2 ^ 62\<close>) insertions and removals applied to the
  empty tree, the tree is a binary search tree, and \<open>Keys\<close> returns its keys strictly
  ascending (hence without duplicates): exactly the keys inserted and not removed since.
  In particular, after inserting \<open>n\<close> distinct keys \<open>Keys\<close> returns those keys sorted, and
  \<open>n\<close> of them.
\<close>

theorem bst_after_ops:
  assumes "length ops < 2 ^ 62"
  shows "\<exists>t ks. run TNil ops = Inr t \<and> bst t \<and> Keys zk t = Inr ks \<and>
           sorted_wrt (<) ks \<and> set ks = dom (model ops) \<and>
           (\<forall>kvs. ops = map (\<lambda>(k, v). OpInsert k v) kvs \<and> distinct (map fst kvs) \<longrightarrow>
              ks = sort (map fst kvs) \<and> length ks = length kvs)"
proof -
  from run_empty_ok [OF assms]
  obtain t where t: "run TNil ops = Inr t" "valid t" "count t < 2 ^ 62"
    "lookup t = model ops" by blast
  let ?ks = "map fst (inorder t)"
  have st: "sized t" and bt: "bst t" using t(2) by (simp_all add: valid_def)
  have "count t < 2 ^ 63" using t(3) by simp
  then have K: "Keys zk t = Inr ?ks" using st by (rule Keys_eq [rotated])
  have S: "sorted_wrt (<) ?ks" using bt by (simp add: bst_iff_sorted)
  have D: "set ?ks = dom (model ops)" using keys_dom_lookup [of t] t(4) by simp
  have "?ks = sort (map fst kvs) \<and> length ?ks = length kvs"
    if "ops = map (\<lambda>(k, v). OpInsert k v) kvs" "distinct (map fst kvs)" for kvs
  proof -
    have "set ?ks = set (sort (map fst kvs))"
      using D that(1) dom_model_inserts [of kvs] by simp
    moreover have "sorted_wrt (<) (sort (map fst kvs))"
      using that(2) by (simp add: strict_sorted_iff)
    ultimately have "?ks = sort (map fst kvs)"
      using S by (intro strict_sorted_unique)
    then show ?thesis by (metis length_map length_sort)
  qed
  then show ?thesis using t(1) bt K S D by blast
qed

theorem bst_after_ops_witness:
  "length (map (\<lambda>(k, v). OpInsert k v) [(3::nat, ''c''), (1, ''a''), (4, ''d''), (2, ''b''), (5, ''e'')]) < 2 ^ 62 \<and>
   distinct (map fst [(3::nat, ''c''), (1, ''a''), (4, ''d''), (2, ''b''), (5, ''e'')]) \<and>
   run TNil (map (\<lambda>(k, v). OpInsert k v) [(3::nat, ''c''), (1, ''a''), (4, ''d''), (2, ''b''), (5, ''e'')]) =
     Inr (Node (Node TNil (Node TNil TNil 0 2 ''b'') 1 1 ''a'')
               (Node TNil (Node TNil TNil 0 5 ''e'') 1 4 ''d'') 4 3 ''c'') \<and>
   bst (Node (Node TNil (Node TNil TNil 0 2 ''b'') 1 (1::nat) ''a'')
             (Node TNil (Node TNil TNil 0 5 ''e'') 1 4 ''d'') 4 3 ''c'') \<and>
   Keys 0 (Node (Node TNil (Node TNil TNil 0 2 ''b'') 1 (1::nat) ''a'')
                (Node TNil (Node TNil TNil 0 5 ''e'') 1 4 ''d'') 4 3 ''c'') = Inr [1, 2, 3, 4, 5] \<and>
   [1, 2, 3, 4, 5] = sort (map fst [(3::nat, ''c''), (1, ''a''), (4, ''d''), (2, ''b''), (5, ''e'')])"
  using bst_after_ops
    [of "map (\<lambda>(k, v). OpInsert k v) [(3::nat, ''c''), (1, ''a''), (4, ''d''), (2, ''b''), (5, ''e'')]" 0]
  by (simp add: treeDelta_def treeGamma_def node_def Let_def Cmp_def Keys_def LeastKeys_def
      top'_def getKeyFunc_def)

text \<open>
  C3. \<open>Size\<close> of the empty tree is 0. After every sequence of (fewer than \<open>2 ^ 62\<close>)
  insertions and removals applied to the empty tree, every node's \<^verbatim>\<open>childSize\<close> is the sum
  of the sizes of its two children, and \<open>Size\<close> is the number of nodes, which is the
  number of keys inserted and not removed since.
\<close>

theorem sizes_after_ops:
  assumes "length ops < 2 ^ 62"
  shows "Size (TNil :: ('k::linorder, 'v) tree) = 0 \<and>
         (\<exists>t :: ('k, 'v) tree. run TNil ops = Inr t \<and> sizes_ok t \<and>
            unat (Size t) = count t \<and> unat (Size t) = card (dom (model ops)))"
proof -
  from run_empty_ok [OF assms]
  obtain t where t: "run TNil ops = Inr t" "valid t" "count t < 2 ^ 62"
    "lookup t = model ops" by blast
  have st: "sized t" and bt: "bst t" using t(2) by (simp_all add: valid_def)
  have b: "count t < 2 ^ 64" using t(3) by simp
  have "sizes_ok t" by (rule sized_sizes_ok [OF st b])
  moreover have u: "unat (Size t) = count t" by (rule unat_Size [OF st b])
  moreover have "card (dom (model ops)) = count t"
    using card_keys [OF bt] t(4) dom_lookup [of t] by simp
  ultimately show ?thesis using t(1) by auto
qed

theorem sizes_after_ops_witness:
  "length [OpInsert (5::nat) ''fie'', OpInsert 5 ''five'', OpInsert 4 ''four'',
           OpInsert 3 ''three'', OpRemove 4, OpRemove 42] < 2 ^ 62 \<and>
   run TNil [OpInsert (5::nat) ''fie'', OpInsert 5 ''five'', OpInsert 4 ''four'',
             OpInsert 3 ''three'', OpRemove 4, OpRemove 42] =
     Inr (Node (Node TNil TNil 0 3 ''three'') TNil 1 5 ''five'') \<and>
   sizes_ok (Node (Node TNil TNil 0 (3::nat) ''three'') TNil 1 5 ''five'') \<and>
   unat (Size (Node (Node TNil TNil 0 (3::nat) ''three'') TNil 1 5 ''five'')) = 2 \<and>
   card (dom (model [OpInsert (5::nat) ''fie'', OpInsert 5 ''five'', OpInsert 4 ''four'',
                     OpInsert 3 ''three'', OpRemove 4, OpRemove 42])) = 2"
  using sizes_after_ops
    [of "[OpInsert (5::nat) ''fie'', OpInsert 5 ''five'', OpInsert 4 ''four'',
          OpInsert 3 ''three'', OpRemove 4, OpRemove 42]"]
  by (simp add: treeDelta_def treeGamma_def node_def Let_def Cmp_def)

text \<open>
  C5. After every sequence of (fewer than \<open>2 ^ 62\<close>) insertions and removals applied to the
  empty tree, \<open>Get\<close> of a key returns the value of its latest insertion if the key was
  inserted and not removed since, and the zero value otherwise; in the latter case
  \<open>GetNode\<close> returns nil. Neither can fail.
\<close>

theorem get_after_ops:
  assumes "length ops < 2 ^ 62"
  shows "\<exists>t. run TNil ops = Inr t \<and>
           Get zv t key = (case model ops key of Some val \<Rightarrow> val | None \<Rightarrow> zv) \<and>
           (GetNode t key = TNil \<longleftrightarrow> model ops key = None)"
proof -
  from run_empty_ok [OF assms]
  obtain t where t: "run TNil ops = Inr t" "valid t" "lookup t = model ops" by blast
  have bt: "bst t" using t(2) by (simp add: valid_def)
  show ?thesis
    using GetNode_lookup [OF bt, of key zv] t(1,3) by (simp add: Get_def)
qed

theorem get_after_ops_witness:
  "length [OpInsert (5::nat) ''fie'', OpInsert 5 ''five'', OpInsert 4 ''four'',
           OpInsert 3 ''three'', OpRemove 4, OpRemove 42] < 2 ^ 62 \<and>
   run TNil [OpInsert (5::nat) ''fie'', OpInsert 5 ''five'', OpInsert 4 ''four'',
             OpInsert 3 ''three'', OpRemove 4, OpRemove 42] =
     Inr (Node (Node TNil TNil 0 3 ''three'') TNil 1 5 ''five'') \<and>
   Get ''zero'' (Node (Node TNil TNil 0 (3::nat) ''three'') TNil 1 5 ''five'') 5 = ''five'' \<and>
   model [OpInsert (5::nat) ''fie'', OpInsert 5 ''five'', OpInsert 4 ''four'',
          OpInsert 3 ''three'', OpRemove 4, OpRemove 42] 5 = Some ''five''"
  using get_after_ops
    [of "[OpInsert (5::nat) ''fie'', OpInsert 5 ''five'', OpInsert 4 ''four'',
          OpInsert 3 ''three'', OpRemove 4, OpRemove 42]" "''zero''" 5]
  by (simp add: treeDelta_def treeGamma_def node_def Let_def Cmp_def Get_def model_def)

lemma skeleton_simps [simp]:
  "skeleton TNil = TNil"
  "skeleton (Node l r cs k v) = Node (skeleton l) (skeleton r) cs k ()"
  by (simp_all add: skeleton_def)

lemma skeleton_eq_Size: "skeleton t' = skeleton t \<Longrightarrow> Size t' = Size t"
  by (cases t; cases t') simp_all

lemma skeleton_eq_RootKey: "skeleton t' = skeleton t \<Longrightarrow> RootKey zk t' = RootKey zk t"
  by (cases t; cases t') simp_all

lemma skeleton_eq_keys: "skeleton t' = skeleton t \<Longrightarrow> map fst (inorder t') = map fst (inorder t)"
proof (induction t arbitrary: t')
  case TNil
  then show ?case by (cases t') simp_all
next
  case (Node l r cs k v)
  then show ?case by (cases t') simp_all
qed

lemma Insert_present:
  assumes "bst t" "key \<in> keys t"
  shows "\<exists>t'. Insert t key val = Inr (t', False) \<and> skeleton t' = skeleton t \<and>
           lookup t' = (lookup t)(key \<mapsto> val)"
  using assms
proof (induction t)
  case TNil
  then show ?case by simp
next
  case (Node l r cs k v)
  have bl: "bst l" and br: "bst r"
    and kl: "\<forall>k' \<in> keys l. k' < k" and kr: "\<forall>k' \<in> keys r. k < k'"
    using Node.prems(1) by simp_all
  consider (eq) "k = key" | (right) "k < key" | (left) "key < k"
    by (rule linorder_cases [of k key]) auto
  then show ?case
  proof cases
    case eq
    have "lookup l k = None" using kl by (auto simp: lookup_None_iff)
    then have "lookup (Node l r cs k val) = (lookup (Node l r cs k v))(key \<mapsto> val)"
      using eq map_upd_here [of "lookup l" k "lookup r" val v] by (simp add: lookup_Node)
    moreover have "Insert (Node l r cs k v) key val = Inr (Node l r cs k val, False)"
      using eq by simp
    moreover have "skeleton (Node l r cs k val) = skeleton (Node l r cs k v)"
      by simp
    ultimately show ?thesis by blast
  next
    case right
    have nk: "key \<notin> keys l" "key \<noteq> k" and ne: "k \<noteq> key" "\<not> key < k"
      using kl right by auto
    then have "key \<in> keys r" using Node.prems(2) by simp
    from Node.IH(2) [OF br this]
    obtain r' where r': "Insert r key val = Inr (r', False)" "skeleton r' = skeleton r"
      "lookup r' = (lookup r)(key \<mapsto> val)" by blast
    have "Insert (Node l r cs k v) key val = Inr (Node l r' cs k v, False)"
      using right ne r'(1) by (simp add: Insert_if)
    moreover have "lookup (Node l r' cs k v) = (lookup (Node l r cs k v))(key \<mapsto> val)"
      using r'(3) nk map_upd_right [of "lookup l" key k "lookup r" val v]
      by (simp add: lookup_Node lookup_None_iff)
    moreover have "skeleton (Node l r' cs k v) = skeleton (Node l r cs k v)"
      using r'(2) by simp
    ultimately show ?thesis by blast
  next
    case left
    have nk: "key \<notin> keys r" "key \<noteq> k" and ne: "k \<noteq> key" "\<not> k < key"
      using kr left by auto
    then have "key \<in> keys l" using Node.prems(2) by simp
    from Node.IH(1) [OF bl this]
    obtain l' where l': "Insert l key val = Inr (l', False)" "skeleton l' = skeleton l"
      "lookup l' = (lookup l)(key \<mapsto> val)" by blast
    have "Insert (Node l r cs k v) key val = Inr (Node l' r cs k v, False)"
      using left ne l'(1) by (simp add: Insert_if)
    moreover have "lookup (Node l' r cs k v) = (lookup (Node l r cs k v))(key \<mapsto> val)"
      using l'(3) by (simp add: lookup_Node)
    moreover have "skeleton (Node l' r cs k v) = skeleton (Node l r cs k v)"
      using l'(2) by simp
    ultimately show ?thesis by blast
  qed
qed

lemma Remove_absent: "key \<notin> keys t \<Longrightarrow> Remove t key = Inr (t, False)"
proof (induction t)
  case TNil
  then show ?case by simp
next
  case (Node l r cs k v)
  then have "k \<noteq> key" "Remove l key = Inr (l, False)" "Remove r key = Inr (r, False)"
    by auto
  then show ?case by (cases "k < key") (simp_all add: Let_def)
qed

text \<open>
  C6. Inserting a key that a search tree already holds replaces the value and nothing
  else: \<open>wasAdded\<close> is false, and the returned tree has the shape, the keys and the
  \<^verbatim>\<open>childSize\<close> fields of the old one at every node (so no rotation took place, the root is
  the old root and \<open>Size\<close> is unchanged). Afterwards \<open>Get\<close> returns the new value for that
  key and the old values for all others.
\<close>

theorem insert_existing_key:
  assumes "bst t" "key \<in> keys t"
  shows "\<exists>t'. Insert t key val = Inr (t', False) \<and> skeleton t' = skeleton t \<and>
           RootKey zk t' = RootKey zk t \<and> Size t' = Size t \<and> bst t' \<and>
           Get zv t' key = val \<and> (\<forall>k'. k' \<noteq> key \<longrightarrow> Get zv t' k' = Get zv t k')"
proof -
  from Insert_present [OF assms, of val]
  obtain t' where t': "Insert t key val = Inr (t', False)" "skeleton t' = skeleton t"
    "lookup t' = (lookup t)(key \<mapsto> val)" by blast
  have bt': "bst t'"
    using assms(1) skeleton_eq_keys [OF t'(2)] by (simp add: bst_iff_sorted)
  have "Get zv t' k' = (case ((lookup t)(key \<mapsto> val)) k' of None \<Rightarrow> zv | Some v \<Rightarrow> v)" for k'
    using GetNode_lookup [OF bt', of k' zv] t'(3) by (simp add: Get_def)
  moreover have "Get zv t k' = (case lookup t k' of None \<Rightarrow> zv | Some v \<Rightarrow> v)" for k'
    using GetNode_lookup [OF assms(1), of k' zv] by (simp add: Get_def)
  ultimately have "Get zv t' key = val" "\<forall>k'. k' \<noteq> key \<longrightarrow> Get zv t' k' = Get zv t k'"
    by simp_all
  then show ?thesis
    using t'(1,2) bt' skeleton_eq_Size [OF t'(2)] skeleton_eq_RootKey [OF t'(2), of zk]
    by blast
qed

theorem insert_existing_key_witness:
  "bst (Node (Node TNil TNil 0 (1::nat) ''one'') (Node TNil TNil 0 6 ''six'') 2 2 ''two'') \<and>
   6 \<in> keys (Node (Node TNil TNil 0 (1::nat) ''one'') (Node TNil TNil 0 6 ''six'') 2 2 ''two'') \<and>
   Insert (Node (Node TNil TNil 0 (1::nat) ''one'') (Node TNil TNil 0 6 ''six'') 2 2 ''two'') 6 ''SIX'' =
     Inr (Node (Node TNil TNil 0 1 ''one'') (Node TNil TNil 0 6 ''SIX'') 2 2 ''two'', False) \<and>
   Get '''' (Node (Node TNil TNil 0 (1::nat) ''one'') (Node TNil TNil 0 6 ''SIX'') 2 2 ''two'') 6 = ''SIX''"
  using insert_existing_key
    [of "Node (Node TNil TNil 0 (1::nat) ''one'') (Node TNil TNil 0 6 ''six'') 2 2 ''two''"
        6 "''SIX''" 0 "''''"]
  by (simp add: Cmp_def Get_def)

text \<open>
  C7. Removing a key that no node holds returns \<open>wasRemoved = false\<close> and the tree it was
  given, unchanged: the same handle, hence the same \<open>Size\<close> and the same \<open>Keys\<close>.
\<close>

theorem remove_absent_key:
  assumes "key \<notin> keys t"
  shows "Remove t key = Inr (t, False)"
  using assms by (rule Remove_absent)

theorem remove_absent_key_witness:
  "42 \<notin> keys (Node (Node TNil TNil 0 (3::nat) ''three'') TNil 1 5 ''five'') \<and>
   Remove (Node (Node TNil TNil 0 (3::nat) ''three'') TNil 1 5 ''five'') 42 =
     Inr (Node (Node TNil TNil 0 3 ''three'') TNil 1 5 ''five'', False)"
  using remove_absent_key [of 42 "Node (Node TNil TNil 0 (3::nat) ''three'') TNil 1 5 ''five''"]
  by simp

lemma visit_map: "visit (\<lambda>x. g (h x)) xs st = visit g (map h xs) st"
  by (induction xs arbitrary: st) (simp_all split: prod.splits bool.splits)

lemma forEach_visit:
  assumes "t \<noteq> TNil"
  shows "forEach zk zv t f reversed st =
           Inr (snd (visit (\<lambda>(k, v). f k v) (if reversed then rev (inorder t) else inorder t) st))"
proof -
  let ?h = "\<lambda>n. (RootKey zk n, RootValue zv n)"
  let ?xs = "if reversed then rev (nodes t) else nodes t"
  have "forEachNode t (\<lambda>node. f (RootKey zk node) (RootValue zv node)) reversed st =
          Inr (visit (\<lambda>x. (\<lambda>(k, v). f k v) (?h x)) ?xs st)"
    using forEachNode_visit
      [OF assms, of "\<lambda>node. f (RootKey zk node) (RootValue zv node)" reversed st]
    by (simp only: prod.case)
  also have "\<dots> = Inr (visit (\<lambda>(k, v). f k v) (map ?h ?xs) st)"
    using visit_map [of "\<lambda>(k, v). f k v" ?h ?xs st] by simp
  also have "map ?h ?xs = (if reversed then rev (inorder t) else inorder t)"
    using inorder_nodes [of zk zv t] by (simp add: rev_map [symmetric])
  finally show ?thesis by (simp add: forEach_def split: prod.splits)
qed

lemma ForEach_visit:
  "ForEach zk zv t f st = Inr (snd (visit (\<lambda>(k, v). f k v) (inorder t) st))"
  by (cases "t = TNil") (simp_all add: ForEach_def forEach_visit)

lemma ReverseForEach_visit:
  "ReverseForEach zk zv t f st = Inr (snd (visit (\<lambda>(k, v). f k v) (rev (inorder t)) st))"
  by (cases "t = TNil") (simp_all add: ReverseForEach_def forEach_visit)

lemma visit_trace:
  "snd (visit (\<lambda>x calls. (p x, calls @ [x])) xs acc) =
     acc @ takeWhile p xs @ take 1 (dropWhile p xs)"
  by (induction xs arbitrary: acc) simp_all

lemma inorder_empty_iff: "inorder t = [] \<longleftrightarrow> t = TNil"
  by (cases t) simp_all

text \<open>
  C9. \<open>ForEach\<close> calls the callback on the entries in order, \<open>ReverseForEach\<close> in the
  reverse order, each threading the callback's state and stopping at the first call that
  returns false, exactly as \<open>visit\<close> does on the list of entries. In a search tree the
  order is ascending by key, the reverse order descending. With a callback that records
  its calls and answers \<open>p\<close>, the recorded calls are the entries before the first one that
  \<open>p\<close> rejects, and that one; with a callback that always answers false on a non-empty
  tree, the single call is on the first entry.
\<close>

theorem foreach_in_order_until_false:
  assumes "bst t"
  shows "ForEach zk zv t f st = Inr (snd (visit (\<lambda>(k, v). f k v) (inorder t) st)) \<and>
         ReverseForEach zk zv t f st = Inr (snd (visit (\<lambda>(k, v). f k v) (rev (inorder t)) st)) \<and>
         sorted_wrt (<) (map fst (inorder t)) \<and>
         sorted_wrt (>) (map fst (rev (inorder t))) \<and>
         ForEach zk zv t (\<lambda>k v calls. (p k v, calls @ [(k, v)])) [] =
           Inr (takeWhile (\<lambda>(k, v). p k v) (inorder t) @
                take 1 (dropWhile (\<lambda>(k, v). p k v) (inorder t))) \<and>
         (t \<noteq> TNil \<longrightarrow>
            ForEach zk zv t (\<lambda>k v calls. (False, calls @ [(k, v)])) [] = Inr [hd (inorder t)])"
proof -
  have asc: "sorted_wrt (<) (map fst (inorder t))"
    using assms by (simp add: bst_iff_sorted)
  then have desc: "sorted_wrt (>) (map fst (rev (inorder t)))"
    by (simp add: rev_map [symmetric] sorted_wrt_rev)
  have tr: "ForEach zk zv t (\<lambda>k v calls. (q k v, calls @ [(k, v)])) [] =
           Inr (takeWhile (\<lambda>(k, v). q k v) (inorder t) @
                take 1 (dropWhile (\<lambda>(k, v). q k v) (inorder t)))" for q
  proof -
    have "(\<lambda>(k, v) calls. (q k v, calls @ [(k, v)])) =
          (\<lambda>x calls. ((\<lambda>(k, v). q k v) x, calls @ [x]))"
      by (simp add: fun_eq_iff)
    then show ?thesis
      using visit_trace [of "\<lambda>(k, v). q k v" "inorder t" "[]"]
      by (simp add: ForEach_visit)
  qed
  have "ForEach zk zv t (\<lambda>k v calls. (False, calls @ [(k, v)])) [] = Inr [hd (inorder t)]"
    if "t \<noteq> TNil"
  proof -
    have "inorder t \<noteq> []" using that by (simp add: inorder_empty_iff)
    then show ?thesis using tr [of "\<lambda>k v. False"] by (cases "inorder t") simp_all
  qed
  then show ?thesis
    using asc desc tr [of p] ForEach_visit [of zk zv t f st]
      ReverseForEach_visit [of zk zv t f st]
    by blast
qed

theorem foreach_in_order_until_false_witness:
  "bst (Node (Node TNil TNil 0 (1::nat) ''one'') (Node TNil TNil 0 6 ''six'') 2 2 ''two'') \<and>
   ForEach 0 '''' (Node (Node TNil TNil 0 (1::nat) ''one'') (Node TNil TNil 0 6 ''six'') 2 2 ''two'')
     (\<lambda>k v calls. (k < 2, calls @ [(k, v)])) [] = Inr [(1, ''one''), (2, ''two'')] \<and>
   ReverseForEach 0 '''' (Node (Node TNil TNil 0 (1::nat) ''one'') (Node TNil TNil 0 6 ''six'') 2 2 ''two'')
     (\<lambda>k v calls. (True, calls @ [(k, v)])) [] = Inr [(6, ''six''), (2, ''two''), (1, ''one'')] \<and>
   ForEach 0 '''' (Node (Node TNil TNil 0 (1::nat) ''one'') (Node TNil TNil 0 6 ''six'') 2 2 ''two'')
     (\<lambda>k v calls. (False, calls @ [(k, v)])) [] = Inr [(1, ''one'')]"
  using foreach_in_order_until_false
    [of "Node (Node TNil TNil 0 (1::nat) ''one'') (Node TNil TNil 0 6 ''six'') 2 2 ''two''"
        0 "''''" "\<lambda>k v calls. (True, calls @ [(k, v)])" "[]" "\<lambda>k v. k < 2"]
  by simp

lemma sint_nonneg_unat64: "unat (x :: uint64) < 2 ^ 63 \<Longrightarrow> 0 \<le> sint x"
  using sint_unat64 [of x] by simp

lemma top_capacity_nonpositive:
  assumes "sint n \<le> 0" "unat (Size t) < 2 ^ 63"
  shows "0 \<le> sint (if Size t < n then Size t else n)"
proof (cases "Size t < n")
  case True
  then show ?thesis using sint_nonneg_unat64 [OF assms(2)] by simp
next
  case False
  then have "unat n \<le> unat (Size t)" by (simp add: word_le_nat_alt not_less)
  then have "unat n < 2 ^ 63" using assms(2) by simp
  then show ?thesis using False sint_nonneg_unat64 [of n] by simp
qed

lemma top_nonpositive:
  assumes "t \<noteq> TNil" "sint n \<le> 0" "unat (Size t) < 2 ^ 63"
  shows "top' t n False f = Inr [f (hd (nodes t))]"
    and "top' t n True f = Inr [f (last (nodes t))]"
proof -
  have m: "max 1 (nat (sint n)) = 1" using assms(2) by simp
  have ne: "nodes t \<noteq> []" using assms(1) by (simp add: nodes_empty_iff)
  note cap = top_capacity_nonpositive [OF assms(2,3)]
  show "top' t n False f = Inr [f (hd (nodes t))]"
    using top_eq [OF assms(1) cap, of False f] m ne
    by (cases "nodes t") simp_all
  show "top' t n True f = Inr [f (last (nodes t))]"
    using top_eq [OF assms(1) cap, of True f] m ne
    by (cases "nodes t" rule: rev_cases) simp_all
qed

lemma key_hd_nodes: "t \<noteq> TNil \<Longrightarrow> getKeyFunc zk (hd (nodes t)) = fst (hd (inorder t))"
  using map_key_nodes [of zk t] by (cases "nodes t") (auto simp: nodes_empty_iff)

lemma val_hd_nodes: "t \<noteq> TNil \<Longrightarrow> getValFunc zv (hd (nodes t)) = snd (hd (inorder t))"
  using map_val_nodes [of zv t] by (cases "nodes t") (auto simp: nodes_empty_iff)

lemma key_last_nodes:
  assumes "t \<noteq> TNil"
  shows "getKeyFunc zk (last (nodes t)) = fst (last (inorder t))"
proof -
  have ne: "nodes t \<noteq> []" "inorder t \<noteq> []"
    using assms by (cases t; simp)+
  have "last (map (getKeyFunc zk) (nodes t)) = last (map fst (inorder t))"
    by (simp only: map_key_nodes)
  then show ?thesis using ne by (simp add: last_map)
qed

lemma val_last_nodes:
  assumes "t \<noteq> TNil"
  shows "getValFunc zv (last (nodes t)) = snd (last (inorder t))"
proof -
  have ne: "nodes t \<noteq> []" "inorder t \<noteq> []"
    using assms by (cases t; simp)+
  have "last (map (getValFunc zv) (nodes t)) = last (map snd (inorder t))"
    by (simp only: map_val_nodes)
  then show ?thesis using ne by (simp add: last_map)
qed

text \<open>
  C10. On a non-empty tree (holding fewer than \<open>2 ^ 63\<close> nodes by its cached size), a bound
  \<open>n \<le> 0\<close> makes \<open>Least\<close>, \<open>Greatest\<close> and their key and value variants return exactly one
  element, the first in their order, not an empty slice: the callback appends before it
  compares the length with \<open>n\<close>.
\<close>

theorem nonpositive_bound_returns_one:
  assumes "t \<noteq> TNil" "sint n \<le> 0" "unat (Size t) < 2 ^ 63"
  shows "Least' t n = Inr [hd (nodes t)] \<and>
         LeastKeys zk t n = Inr [fst (hd (inorder t))] \<and>
         LeastValues zv t n = Inr [snd (hd (inorder t))] \<and>
         Greatest' t n = Inr [last (nodes t)] \<and>
         GreatestKeys zk t n = Inr [fst (last (inorder t))] \<and>
         GreatestValues zv t n = Inr [snd (last (inorder t))]"
  using top_nonpositive(1) [OF assms, of identity] top_nonpositive(2) [OF assms, of identity]
    top_nonpositive(1) [OF assms, of "getKeyFunc zk"]
    top_nonpositive(2) [OF assms, of "getKeyFunc zk"]
    top_nonpositive(1) [OF assms, of "getValFunc zv"]
    top_nonpositive(2) [OF assms, of "getValFunc zv"]
    key_hd_nodes [OF assms(1), of zk] val_hd_nodes [OF assms(1), of zv]
    key_last_nodes [OF assms(1), of zk] val_last_nodes [OF assms(1), of zv]
  by (simp add: Least'_def LeastKeys_def LeastValues_def Greatest'_def GreatestKeys_def
      GreatestValues_def identity_def)

theorem nonpositive_bound_returns_one_witness:
  "Node (Node TNil TNil 0 (3::nat) ''three'') TNil 1 5 ''five'' \<noteq> TNil \<and>
   sint (- 1 :: 64 word) \<le> 0 \<and>
   unat (Size (Node (Node TNil TNil 0 (3::nat) ''three'') TNil 1 5 ''five'')) < 2 ^ 63 \<and>
   Least' (Node (Node TNil TNil 0 (3::nat) ''three'') TNil 1 5 ''five'') (- 1) =
     Inr [Node TNil TNil 0 3 ''three''] \<and>
   LeastKeys 0 (Node (Node TNil TNil 0 (3::nat) ''three'') TNil 1 5 ''five'') (- 1) = Inr [3] \<and>
   GreatestValues '''' (Node (Node TNil TNil 0 (3::nat) ''three'') TNil 1 5 ''five'') (- 1) =
     Inr [''five'']"
  using nonpositive_bound_returns_one
    [of "Node (Node TNil TNil 0 (3::nat) ''three'') TNil 1 5 ''five''" "- 1" 0 "''''"]
  by simp

lemma top_positive:
  assumes "sized t" "count t < 2 ^ 63" "1 \<le> sint n"
  shows "top' t n reversed f =
           Inr (map f (take (nat (sint n)) (if reversed then rev (nodes t) else nodes t)))"
proof -
  have "max 1 (nat (sint n)) = nat (sint n)" using assms(3) by simp
  then show ?thesis using top_returns [OF assms(1,2), of n reversed f] by simp
qed

text \<open>
  C8. The claim bounds the result of \<open>Least(n)\<close> by \<open>n\<close>, as the doc comments of the six
  extraction functions do (``a slice with length <= n''). For a bound of at least 1 the
  code does return the first \<open>min n size\<close> entries (\<open>top_positive\<close>); for the bound 0 it
  returns one entry of a non-empty tree, because \<^verbatim>\<open>top\<close> tests the length only after the
  first append. Here \<open>Least(0)\<close> on a one-node tree:
\<close>

theorem least_zero_returns_an_entry:
  "Least' (Node TNil TNil 0 (7::nat) ''seven'') 0 = Inr [Node TNil TNil 0 7 ''seven''] \<and>
   LeastKeys 0 (Node TNil TNil 0 (7::nat) ''seven'') 0 = Inr [7] \<and>
   \<not> int (length [Node TNil TNil 0 (7::nat) ''seven'']) \<le> sint (0 :: 64 word)"
  by (simp add: Least'_def LeastKeys_def top'_def identity_def getKeyFunc_def)

end
